theory Spec2Isabelle
  imports Main "HOL-Library.Word"
begin

unbundle bit_operations_syntax

section \<open>Wide strings and the bounded string routines\<close>

text \<open>
  \<^verbatim>\<open>wchar_t\<close> is a 16-bit code unit on the target platform.  A C string is modelled by the
  list of its code units before the terminating NUL.
\<close>

type_synonym wchar = "16 word"
type_synonym wstring = "wchar list"

definition L :: "string \<Rightarrow> wstring" where
  "L s = map of_char s"

definition STR_MAX :: nat where
  "STR_MAX = 2048"

definition MAX_PATH :: nat where
  "MAX_PATH = 260"

text \<open>
  What ends a run early: \<^verbatim>\<open>wcscat_s\<close> on a destination that is too small calls the
  invalid-parameter handler, which ends the process; a read past the terminating NUL of a
  string is outside the array; and the recursion is cut at a given depth (the stack).
\<close>

datatype error = InvalidParameter | OutOfBounds | StackExhausted

text \<open>
  A function that prints returns \<open>Inr\<close> with the lines it has written when it returns, and
  \<open>Inl\<close> with the reason when the run ends early; what had been written by then is not
  kept.  Memory is taken to be enough: \<^verbatim>\<open>malloc\<close> and \<^verbatim>\<open>realloc\<close> succeed.
\<close>

definition wcscat_s :: "wstring \<Rightarrow> nat \<Rightarrow> wstring \<Rightarrow> error + wstring" where
  "wcscat_s dst numberOfElements src =
     (if length dst + length src < numberOfElements then Inr (dst @ src)
      else Inl InvalidParameter)"

text \<open>
  \<^verbatim>\<open>StringCchPrintf\<close> truncates the formatted text to the destination (the status it
  returns is not looked at by the callers).
\<close>

definition StringCchPrintf :: "nat \<Rightarrow> wstring \<Rightarrow> wstring" where
  "StringCchPrintf cchDest formatted = take (cchDest - 1) formatted"

text \<open>Reading \<^verbatim>\<open>s[j]\<close>: the code unit, the NUL at the end, or a read outside the string.\<close>

definition wchar_at :: "wstring \<Rightarrow> nat \<Rightarrow> error + wchar" where
  "wchar_at s j =
     (if j < length s then Inr (s ! j)
      else if j = length s then Inr 0
      else Inl OutOfBounds)"

section \<open>The file system as the program sees it\<close>

record WIN32_FIND_DATA =
  dwFileAttributes :: "32 word"
  cFileName :: wstring

definition FILE_ATTRIBUTE_DIRECTORY :: "32 word" where
  "FILE_ATTRIBUTE_DIRECTORY = 0x10"

text \<open>
  The operating system is a parameter.  \<open>FindFiles os pattern\<close> is the sequence of entries
  that \<^verbatim>\<open>FindFirstFile\<close> and then \<^verbatim>\<open>FindNextFile\<close> hand out for a search pattern; the empty
  sequence stands for \<^verbatim>\<open>FindFirstFile\<close> returning \<^verbatim>\<open>INVALID_HANDLE_VALUE\<close> (the path
  cannot be opened, or nothing matches).  \<open>uninitialised os path\<close> is what the local
  \<^verbatim>\<open>FindFileData\<close> of \<^verbatim>\<open>HasSubFolder\<close> holds on entry for that path: the function never
  initialises it.  The remaining fields are the calls \<^verbatim>\<open>wmain\<close> makes.
\<close>

record os =
  FindFiles :: "wstring \<Rightarrow> WIN32_FIND_DATA list"
  uninitialised :: "wstring \<Rightarrow> WIN32_FIND_DATA"
  wfullpath :: "wstring \<Rightarrow> wstring"
  CharUpper :: "wstring \<Rightarrow> wstring"
  SetCurrentDirectory :: "wstring \<Rightarrow> wstring option"
  GetCurrentDirectory :: wstring
  volume_name :: wstring
  volume_serial :: "32 word"
  getdrive :: nat

text \<open>The three global flags of the program.\<close>

record globals =
  bShowFiles :: bool
  bUseAscii :: bool
  bSetPath :: bool

section \<open>HasSubFolder\<close>

definition is_directory :: "WIN32_FIND_DATA \<Rightarrow> bool" where
  "is_directory d \<longleftrightarrow> dwFileAttributes d AND FILE_ATTRIBUTE_DIRECTORY \<noteq> 0"

definition is_dot_or_dotdot :: "wstring \<Rightarrow> bool" where
  "is_dot_or_dotdot name \<longleftrightarrow> name = [0x2E] \<or> name = [0x2E, 0x2E]"

text \<open>
  The \<^verbatim>\<open>do ... while (FindNextFile ...)\<close> loop of \<^verbatim>\<open>HasSubFolder\<close> over the entries that
  are handed out, the first one being in \<^verbatim>\<open>FindFileData\<close> when the loop is entered.
\<close>

fun HasSubFolder_loop :: "WIN32_FIND_DATA list \<Rightarrow> bool" where
  "HasSubFolder_loop [] = False"
| "HasSubFolder_loop (FindFileData # remaining) =
     (if is_directory FindFileData then
        (if is_dot_or_dotdot (cFileName FindFileData) then HasSubFolder_loop remaining
         else True)
      else HasSubFolder_loop remaining)"

text \<open>
  The handle is not compared with \<^verbatim>\<open>INVALID_HANDLE_VALUE\<close>: when the search fails the
  loop body still runs once, on the uninitialised \<^verbatim>\<open>FindFileData\<close>, and \<^verbatim>\<open>FindNextFile\<close>
  on the invalid handle then ends the loop.
\<close>

definition HasSubFolder :: "os \<Rightarrow> wstring \<Rightarrow> error + bool" where
  "HasSubFolder sys strPath =
     (case wcscat_s [] STR_MAX strPath of
        Inl e \<Rightarrow> Inl e
      | Inr folderPath0 \<Rightarrow>
          (case wcscat_s folderPath0 STR_MAX [0x5C, 0x2A, 0x2E] of
             Inl e \<Rightarrow> Inl e
           | Inr folderPath \<Rightarrow>
               (case FindFiles sys folderPath of
                  [] \<Rightarrow> Inr (HasSubFolder_loop [uninitialised sys strPath])
                | found \<Rightarrow> Inr (HasSubFolder_loop found))))"

section \<open>DrawTree and GetDirectoryStructure\<close>

text \<open>The test of the previous line: \<^verbatim>\<open>(BYTE)\<close> keeps the low eight bits of the code unit.\<close>

definition is_continuation :: "wchar \<Rightarrow> bool" where
  "is_continuation c \<longleftrightarrow>
     c = 0x251C \<or> c = 0x2502 \<or> (ucast c :: 8 word) = 0x2B \<or> (ucast c :: 8 word) = 0x7C"

text \<open>\<^verbatim>\<open>width - 1\<close> and \<^verbatim>\<open>width + 4\<close> on a 32-bit \<^verbatim>\<open>UINT\<close>.\<close>

definition uint_pred :: "nat \<Rightarrow> nat" where
  "uint_pred width = (if width = 0 then 2 ^ 32 - 1 else width - 1)"

definition uint_add4 :: "nat \<Rightarrow> nat" where
  "uint_add4 width = (width + 4) mod 2 ^ 32"

text \<open>The inner loop over \<open>j\<close> that fills \<^verbatim>\<open>consoleOut\<close> with the indentation.\<close>

function indent_loop :: "bool \<Rightarrow> nat \<Rightarrow> wstring \<Rightarrow> nat \<Rightarrow> wstring \<Rightarrow> error + wstring" where
  "indent_loop ascii width prevLine j consoleOut =
     (if j < uint_pred width then
        (case wchar_at prevLine j of
           Inl e \<Rightarrow> Inl e
         | Inr c \<Rightarrow>
             (case wcscat_s consoleOut STR_MAX
                     (if is_continuation c then (if \<not> ascii then [0x2502] else [0x7C])
                      else [0x20]) of
                Inl e \<Rightarrow> Inl e
              | Inr consoleOut' \<Rightarrow> indent_loop ascii width prevLine (Suc j) consoleOut'))
      else Inr consoleOut)"
  by pat_completeness auto
termination
  by (relation "measure (\<lambda>(ascii, width, prevLine, j, consoleOut). uint_pred width - j)") auto

text \<open>The text \<^verbatim>\<open>str\<close> that follows the indentation (the two branches on \<^verbatim>\<open>szArr - 1 != i\<close>).\<close>

definition connector :: "bool \<Rightarrow> bool \<Rightarrow> bool \<Rightarrow> bool \<Rightarrow> wstring \<Rightarrow> wstring" where
  "connector ascii drawfolder bHasSubFolder not_last name =
     (if not_last then
        (if drawfolder then
           (if ascii then StringCchPrintf STR_MAX ([0x2B, 0x2D, 0x2D, 0x2D] @ name)
            else StringCchPrintf STR_MAX ([0x251C, 0x2500, 0x2500, 0x2500] @ name))
         else if bHasSubFolder then
           (if ascii then StringCchPrintf STR_MAX ([0x7C, 0x20, 0x20, 0x20] @ name)
            else StringCchPrintf STR_MAX ([0x2502, 0x20, 0x20, 0x20] @ name))
         else StringCchPrintf STR_MAX ([0x20, 0x20, 0x20, 0x20, 0x20] @ name))
      else
        (if drawfolder then
           (if ascii then StringCchPrintf STR_MAX ([0x5C, 0x2D, 0x2D, 0x2D] @ name)
            else StringCchPrintf STR_MAX ([0x2514, 0x2500, 0x2500, 0x2500] @ name))
         else if bHasSubFolder then
           (if ascii then StringCchPrintf STR_MAX ([0x7C, 0x20, 0x20, 0x20] @ name)
            else StringCchPrintf STR_MAX ([0x2502, 0x20, 0x20, 0x20] @ name))
         else StringCchPrintf STR_MAX ([0x20, 0x20, 0x20, 0x20, 0x20] @ name)))"

text \<open>The line \<^verbatim>\<open>consoleOut\<close> that iteration \<open>i\<close> of the outer loop prints.\<close>

definition consoleOut_of ::
  "globals \<Rightarrow> WIN32_FIND_DATA list \<Rightarrow> nat \<Rightarrow> wstring \<Rightarrow> bool \<Rightarrow> bool \<Rightarrow> nat \<Rightarrow> error + wstring" where
  "consoleOut_of g arrFolder width prevLine drawfolder bHasSubFolder i =
     (case indent_loop (bUseAscii g) width prevLine 0 [] of
        Inl e \<Rightarrow> Inl e
      | Inr consoleOut \<Rightarrow>
          wcscat_s consoleOut STR_MAX
            (connector (bUseAscii g) drawfolder bHasSubFolder (length arrFolder - 1 \<noteq> i)
               (cFileName (arrFolder ! i))))"

text \<open>The path of the sub folder that the recursion is given.\<close>

definition child_path :: "wstring \<Rightarrow> wstring \<Rightarrow> error + wstring" where
  "child_path strPath name =
     (case wcscat_s [] STR_MAX strPath of
        Inl e \<Rightarrow> Inl e
      | Inr s1 \<Rightarrow>
          (case wcscat_s s1 STR_MAX [0x5C] of
             Inl e \<Rightarrow> Inl e
           | Inr s2 \<Rightarrow> wcscat_s s2 STR_MAX name))"

text \<open>
  The \<^verbatim>\<open>do ... while\<close> loop of \<^verbatim>\<open>GetDirectoryStructure\<close> that sorts the entries into
  \<^verbatim>\<open>arrFolder\<close> and \<^verbatim>\<open>arrFile\<close> (\<^verbatim>\<open>realloc\<close> is taken to succeed).
\<close>

fun collect ::
  "WIN32_FIND_DATA list \<Rightarrow> WIN32_FIND_DATA list \<Rightarrow> WIN32_FIND_DATA list
     \<Rightarrow> WIN32_FIND_DATA list \<times> WIN32_FIND_DATA list" where
  "collect [] arrFolder arrFile = (arrFolder, arrFile)"
| "collect (FindFileData # remaining) arrFolder arrFile =
     (if is_directory FindFileData then
        (if is_dot_or_dotdot (cFileName FindFileData) then collect remaining arrFolder arrFile
         else collect remaining (arrFolder @ [FindFileData]) arrFile)
      else collect remaining arrFolder (arrFile @ [FindFileData]))"

text \<open>
  The entry appended to the files when files are shown: only its name is written, and
  \<^verbatim>\<open>DrawTree\<close> reads nothing else of an entry.
\<close>

definition spoof :: WIN32_FIND_DATA where
  "spoof = \<lparr>dwFileAttributes = 0, cFileName = [0x20]\<rparr>"

text \<open>
  Every function returns the lines it writes to the standard output, in order.  Two runs
  one after the other:
\<close>

definition and_then :: "error + wstring list \<Rightarrow> error + wstring list \<Rightarrow> error + wstring list" where
  "and_then first second =
     (case first of
        Inl e \<Rightarrow> Inl e
      | Inr a \<Rightarrow> (case second of Inl e \<Rightarrow> Inl e | Inr b \<Rightarrow> Inr (a @ b)))"

text \<open>
  \<^verbatim>\<open>DrawTree\<close> and \<^verbatim>\<open>GetDirectoryStructure\<close> call each other.  The call from \<^verbatim>\<open>DrawTree\<close>
  to \<^verbatim>\<open>GetDirectoryStructure\<close> is the parameter \<open>descend\<close> of the loop; the recursion is
  closed below, by the depth that is left.
\<close>

type_synonym descent = "wstring \<Rightarrow> nat \<Rightarrow> wstring \<Rightarrow> error + wstring list"

text \<open>Iteration \<open>i\<close> of the outer loop: the line, and for a folder what is below it.\<close>

definition DrawTree_entry ::
  "descent \<Rightarrow> globals \<Rightarrow> wstring \<Rightarrow> WIN32_FIND_DATA list \<Rightarrow> nat \<Rightarrow> wstring \<Rightarrow> bool \<Rightarrow> bool
     \<Rightarrow> nat \<Rightarrow> error + wstring list" where
  "DrawTree_entry descend g strPath arrFolder width prevLine drawfolder bHasSubFolder i =
     (case consoleOut_of g arrFolder width prevLine drawfolder bHasSubFolder i of
        Inl e \<Rightarrow> Inl e
      | Inr consoleOut \<Rightarrow>
          (if drawfolder then
             (case child_path strPath (cFileName (arrFolder ! i)) of
                Inl e \<Rightarrow> Inl e
              | Inr str \<Rightarrow>
                  (case descend str (uint_add4 width) consoleOut of
                     Inl e \<Rightarrow> Inl e
                   | Inr below \<Rightarrow> Inr (consoleOut # below)))
           else Inr [consoleOut]))"

function DrawTree_loop ::
  "descent \<Rightarrow> globals \<Rightarrow> wstring \<Rightarrow> WIN32_FIND_DATA list \<Rightarrow> nat \<Rightarrow> wstring \<Rightarrow> bool \<Rightarrow> bool
     \<Rightarrow> nat \<Rightarrow> error + wstring list" where
  "DrawTree_loop descend g strPath arrFolder width prevLine drawfolder bHasSubFolder i =
     (if i < length arrFolder then
        and_then
          (DrawTree_entry descend g strPath arrFolder width prevLine drawfolder bHasSubFolder i)
          (DrawTree_loop descend g strPath arrFolder width prevLine drawfolder bHasSubFolder
             (Suc i))
      else Inr [])"
  by pat_completeness auto
termination
  by (relation "measure (\<lambda>(descend, g, strPath, arrFolder, width, prevLine, drawfolder,
        bHasSubFolder, i). length arrFolder - i)") auto

definition DrawTree_body ::
  "descent \<Rightarrow> os \<Rightarrow> globals \<Rightarrow> wstring \<Rightarrow> WIN32_FIND_DATA list \<Rightarrow> nat \<Rightarrow> wstring \<Rightarrow> bool
     \<Rightarrow> error + wstring list" where
  "DrawTree_body descend sys g strPath arrFolder width prevLine drawfolder =
     (case HasSubFolder sys strPath of
        Inl e \<Rightarrow> Inl e
      | Inr bHasSubFolder \<Rightarrow>
          DrawTree_loop descend g strPath arrFolder width prevLine drawfolder bHasSubFolder 0)"

definition GetDirectoryStructure_body :: "descent \<Rightarrow> os \<Rightarrow> globals \<Rightarrow> descent" where
  "GetDirectoryStructure_body descend sys g strPath width prevLine =
     (case wcscat_s [] STR_MAX strPath of
        Inl e \<Rightarrow> Inl e
      | Inr tmp0 \<Rightarrow>
          (case wcscat_s tmp0 STR_MAX [0x5C, 0x2A, 0x2E, 0x2A] of
             Inl e \<Rightarrow> Inl e
           | Inr tmp \<Rightarrow>
               (case FindFiles sys tmp of
                  [] \<Rightarrow> Inr []
                | found \<Rightarrow>
                    (case collect found [] [] of
                       (arrFolder, arrFile) \<Rightarrow>
                         and_then
                           (if bShowFiles g then
                              DrawTree_body descend sys g strPath
                                (if arrFile \<noteq> [] then arrFile @ [spoof] else arrFile)
                                width prevLine False
                            else Inr [])
                           (DrawTree_body descend sys g strPath arrFolder width prevLine
                              True)))))"

text \<open>The first argument is the depth of recursion that the stack still allows.\<close>

primrec GetDirectoryStructure :: "nat \<Rightarrow> os \<Rightarrow> globals \<Rightarrow> descent" where
  "GetDirectoryStructure 0 sys g strPath width prevLine = Inl StackExhausted"
| "GetDirectoryStructure (Suc depth) sys g strPath width prevLine =
     GetDirectoryStructure_body (GetDirectoryStructure depth sys g) sys g strPath width
       prevLine"

definition DrawTree ::
  "nat \<Rightarrow> os \<Rightarrow> globals \<Rightarrow> wstring \<Rightarrow> WIN32_FIND_DATA list \<Rightarrow> nat \<Rightarrow> wstring \<Rightarrow> bool
     \<Rightarrow> error + wstring list" where
  "DrawTree depth sys g = DrawTree_body (GetDirectoryStructure depth sys g) sys g"

section \<open>wmain\<close>

text \<open>What a run of the program leaves: the exit status and the lines of the two streams.\<close>

record outcome =
  exit_status :: int
  stdout :: "wstring list"
  stderr :: "wstring list"

definition PrintUsage :: "wstring list" where
  "PrintUsage =
     [L ''Graphically displays the folder structure of a drive or path.'',
      [],
      L ''TREE [drive:][path] [/F] [/A]'',
      [],
      L ''   /F   Display the names of the files in each folder.'',
      L ''   /A   Use ASCII instead of extended characters.'',
      []]"

text \<open>\<^verbatim>\<open>towlower\<close> in the C locale, which the program never changes.\<close>

definition towlower :: "wchar \<Rightarrow> wchar" where
  "towlower c = (if 0x41 \<le> c \<and> c \<le> 0x5A then c + 0x20 else c)"

text \<open>\<^verbatim>\<open>argv[i][j]\<close>, read at most at the terminating NUL.\<close>

definition arg_char :: "wstring \<Rightarrow> nat \<Rightarrow> wchar" where
  "arg_char arg j = (if j < length arg then arg ! j else 0)"

text \<open>
  The loop over the command line.  It ends the program (\<open>Inl\<close>) at a help switch and at a
  second path, and otherwise hands the flags and the path on.
\<close>

fun parse_command_line ::
  "os \<Rightarrow> wstring list \<Rightarrow> globals \<Rightarrow> wstring \<Rightarrow> outcome + globals \<times> wstring" where
  "parse_command_line sys [] g specifiedPath = Inr (g, specifiedPath)"
| "parse_command_line sys (arg # args) g specifiedPath =
     (if arg_char arg 0 = 0x2D \<or> arg_char arg 0 = 0x2F then
        (if towlower (arg_char arg 1) = 0x3F then
           Inl \<lparr>exit_status = 0, stdout = [], stderr = PrintUsage\<rparr>
         else if towlower (arg_char arg 1) = 0x66 then
           parse_command_line sys args (g\<lparr>bShowFiles := True\<rparr>) specifiedPath
         else if towlower (arg_char arg 1) = 0x61 then
           parse_command_line sys args (g\<lparr>bUseAscii := True\<rparr>) specifiedPath
         else parse_command_line sys args g specifiedPath)
      else if \<not> bSetPath g then
        parse_command_line sys args (g\<lparr>bSetPath := True\<rparr>) (wfullpath sys arg)
      else
        Inl \<lparr>exit_status = 0, stdout = [],
             stderr = [L ''Too many parameters - '' @ arg, []]\<rparr>)"

text \<open>The conversion \<^verbatim>\<open>%X\<close>.\<close>

definition hex_digit :: "nat \<Rightarrow> wchar" where
  "hex_digit d = (if d < 10 then of_nat (48 + d) else of_nat (55 + d))"

fun print_X :: "nat \<Rightarrow> wstring" where
  "print_X n = (if n < 16 then [hex_digit n] else print_X (n div 16) @ [hex_digit (n mod 16)])"

definition banner :: "os \<Rightarrow> wstring list" where
  "banner sys =
     [L ''Folder PATH listing for volume '' @ volume_name sys,
      L ''Volume serial number is '' @ print_X (unat (drop_bit 16 (volume_serial sys)))
        @ [0x2D] @ print_X (unat (volume_serial sys AND 0xFFFF))]"

text \<open>\<^verbatim>\<open>wcschr (s, L'\\')\<close> as \<^verbatim>\<open>%s\<close> prints it.\<close>

definition from_backslash :: "wstring \<Rightarrow> wstring" where
  "from_backslash s =
     (case dropWhile (\<lambda>c. c \<noteq> 0x5C) s of [] \<Rightarrow> L ''(null)'' | found \<Rightarrow> found)"

definition initial_globals :: globals where
  "initial_globals = \<lparr>bShowFiles = False, bUseAscii = False, bSetPath = False\<rparr>"

text \<open>The end of \<^verbatim>\<open>wmain\<close>, from \<^verbatim>\<open>GetCurrentDirectory\<close> on.\<close>

definition list_directory ::
  "nat \<Rightarrow> os \<Rightarrow> globals \<Rightarrow> wstring \<Rightarrow> wstring list \<Rightarrow> error + outcome" where
  "list_directory depth sys g strPath printed =
     (case GetDirectoryStructure depth sys g strPath 1 (replicate 10 0x20) of
        Inl e \<Rightarrow> Inl e
      | Inr tree \<Rightarrow>
          (case HasSubFolder sys strPath of
             Inl e \<Rightarrow> Inl e
           | Inr has \<Rightarrow>
               Inr \<lparr>exit_status = 0, stdout = printed @ tree,
                    stderr = (if has then [] else [L ''No subfolders exist'', []])\<rparr>))"

definition wmain :: "nat \<Rightarrow> os \<Rightarrow> wstring list \<Rightarrow> error + outcome" where
  "wmain depth sys argv =
     (case parse_command_line sys (drop 1 argv) initial_globals [] of
        Inl ended \<Rightarrow> Inr ended
      | Inr (g, specifiedPath) \<Rightarrow>
          (if bSetPath g then
             (case SetCurrentDirectory sys (CharUpper sys specifiedPath) of
                None \<Rightarrow>
                  Inr \<lparr>exit_status = 0,
                       stdout = banner sys @ [CharUpper sys specifiedPath],
                       stderr =
                         [L ''Invalid path - '' @ from_backslash (CharUpper sys specifiedPath),
                          L ''No subfolders exist'', []]\<rparr>
              | Some cwd \<Rightarrow>
                  list_directory depth sys g cwd (banner sys @ [CharUpper sys specifiedPath]))
           else
             list_directory depth sys g (GetCurrentDirectory sys)
               (banner sys @ [[of_nat (getdrive sys + 65 - 1), 0x3A, 0x2E]])))"

section \<open>Closed forms of the rendered text\<close>

text \<open>
  The statements below speak of the rendered lines through these forms; the lemmas relate
  them to the loops.  \<open>column s j\<close> is the code unit that \<^verbatim>\<open>s[j]\<close> reads inside the
  array, \<open>cell\<close> the code unit that one step of the inner loop appends, \<open>indentation\<close> the
  text of the \<^verbatim>\<open>width - 1\<close> steps.
\<close>

definition column :: "wstring \<Rightarrow> nat \<Rightarrow> wchar" where
  "column s j = (if j < length s then s ! j else 0)"

definition cell :: "bool \<Rightarrow> wchar \<Rightarrow> wchar" where
  "cell ascii c = (if is_continuation c then (if ascii then 0x7C else 0x2502) else 0x20)"

definition indentation :: "bool \<Rightarrow> nat \<Rightarrow> wstring \<Rightarrow> wstring" where
  "indentation ascii width prevLine =
     map (\<lambda>j. cell ascii (column prevLine j)) [0..<uint_pred width]"

text \<open>The line of folder \<open>i\<close> of \<open>arr\<close>, and the line of a file named \<open>name\<close>.\<close>

definition folder_line :: "bool \<Rightarrow> nat \<Rightarrow> wstring \<Rightarrow> WIN32_FIND_DATA list \<Rightarrow> nat \<Rightarrow> wstring" where
  "folder_line ascii width prevLine arr i =
     indentation ascii width prevLine
     @ (if i < length arr - 1 then
          (if ascii then [0x2B, 0x2D, 0x2D, 0x2D] else [0x251C, 0x2500, 0x2500, 0x2500])
        else
          (if ascii then [0x5C, 0x2D, 0x2D, 0x2D] else [0x2514, 0x2500, 0x2500, 0x2500]))
     @ cFileName (arr ! i)"

definition file_line :: "bool \<Rightarrow> nat \<Rightarrow> wstring \<Rightarrow> bool \<Rightarrow> wstring \<Rightarrow> wstring" where
  "file_line ascii width prevLine has name =
     indentation ascii width prevLine
     @ (if has then (if ascii then [0x7C, 0x20, 0x20, 0x20] else [0x2502, 0x20, 0x20, 0x20])
        else [0x20, 0x20, 0x20, 0x20, 0x20])
     @ name"

section \<open>An example directory tree\<close>

text \<open>
  A directory \<^verbatim>\<open>t\<close> with the folders \<^verbatim>\<open>a\<close> and \<^verbatim>\<open>b\<close>, the file \<^verbatim>\<open>f.txt\<close> and the hidden
  system file \<^verbatim>\<open>h\<close>; \<^verbatim>\<open>a\<close> holds the folder \<^verbatim>\<open>x\<close>, which cannot be opened; \<^verbatim>\<open>b\<close> is empty.
  The pattern \<^verbatim>\<open>*.\<close> finds the names without an extension.
\<close>

definition folder :: "string \<Rightarrow> WIN32_FIND_DATA" where
  "folder name = \<lparr>dwFileAttributes = 0x10, cFileName = L name\<rparr>"

definition plain_file :: "string \<Rightarrow> WIN32_FIND_DATA" where
  "plain_file name = \<lparr>dwFileAttributes = 0x20, cFileName = L name\<rparr>"

definition hidden_system_file :: "string \<Rightarrow> WIN32_FIND_DATA" where
  "hidden_system_file name = \<lparr>dwFileAttributes = 0x06, cFileName = L name\<rparr>"

definition example_find :: "wstring \<Rightarrow> WIN32_FIND_DATA list" where
  "example_find pattern =
     (if pattern = L ''t'' @ [0x5C] @ L ''*.*'' then
        [folder ''.'', folder ''..'', folder ''a'', plain_file ''f.txt'',
         hidden_system_file ''h'', folder ''b'']
      else if pattern = L ''t'' @ [0x5C] @ L ''*.'' then
        [folder ''.'', folder ''..'', folder ''a'', hidden_system_file ''h'', folder ''b'']
      else if pattern = L ''t'' @ [0x5C] @ L ''a'' @ [0x5C] @ L ''*.*'' then
        [folder ''.'', folder ''..'', folder ''x'']
      else if pattern = L ''t'' @ [0x5C] @ L ''a'' @ [0x5C] @ L ''*.'' then
        [folder ''.'', folder ''..'', folder ''x'']
      else if pattern = L ''t'' @ [0x5C] @ L ''b'' @ [0x5C] @ L ''*.*'' then
        [folder ''.'', folder ''..'']
      else if pattern = L ''t'' @ [0x5C] @ L ''b'' @ [0x5C] @ L ''*.'' then
        [folder ''.'', folder ''..'']
      else [])"

definition example_os :: os where
  "example_os =
     \<lparr>FindFiles = example_find,
      uninitialised = (\<lambda>path. \<lparr>dwFileAttributes = 0, cFileName = []\<rparr>),
      wfullpath = (\<lambda>path. path),
      CharUpper = (\<lambda>path. path),
      SetCurrentDirectory = (\<lambda>path. None),
      GetCurrentDirectory = L ''t'',
      volume_name = L ''OS'',
      volume_serial = 0x1234ABCD,
      getdrive = 3\<rparr>"

section \<open>Vocabulary of the statements about the command line\<close>

text \<open>An argument is a switch when it begins with \<^verbatim>\<open>-\<close> or \<^verbatim>\<open>/\<close>; the help switch is \<^verbatim>\<open>?\<close>.\<close>

definition is_switch :: "wstring \<Rightarrow> bool" where
  "is_switch arg \<longleftrightarrow> arg_char arg 0 = 0x2D \<or> arg_char arg 0 = 0x2F"

definition is_help :: "wstring \<Rightarrow> bool" where
  "is_help arg \<longleftrightarrow> is_switch arg \<and> towlower (arg_char arg 1) = 0x3F"

section \<open>A drive on which no search succeeds\<close>

text \<open>
  The root of a drive has no \<^verbatim>\<open>.\<close> and \<^verbatim>\<open>..\<close> entries, so a search for \<^verbatim>\<open>*.\<close> there fails when
  every name has an extension, as it does when the directory cannot be read.  The local
  \<^verbatim>\<open>FindFileData\<close> holds what an earlier call left on the stack: here, a folder.
\<close>

definition stale_os :: os where
  "stale_os =
     \<lparr>FindFiles = (\<lambda>pattern. []),
      uninitialised = (\<lambda>path. \<lparr>dwFileAttributes = 0x10, cFileName = L ''stale''\<rparr>),
      wfullpath = (\<lambda>path. path),
      CharUpper = (\<lambda>path. path),
      SetCurrentDirectory = (\<lambda>path. None),
      GetCurrentDirectory = L ''D:'' @ [0x5C],
      volume_name = L ''DATA'',
      volume_serial = 0,
      getdrive = 4\<rparr>"

section \<open>The substitution of ASCII mode\<close>

text \<open>
  The four box characters and the ASCII characters that stand for them; a name without a
  box character; a run with every line substituted.
\<close>

definition to_ascii :: "wchar \<Rightarrow> wchar" where
  "to_ascii c =
     (if c = 0x251C then 0x2B
      else if c = 0x2500 then 0x2D
      else if c = 0x2514 then 0x5C
      else if c = 0x2502 then 0x7C
      else c)"

definition no_box_characters :: "wstring \<Rightarrow> bool" where
  "no_box_characters name =
     list_all (\<lambda>c. c \<noteq> 0x251C \<and> c \<noteq> 0x2500 \<and> c \<noteq> 0x2514 \<and> c \<noteq> 0x2502) name"

definition substituted :: "error + wstring list \<Rightarrow> error + wstring list" where
  "substituted run = map_sum id (map (map to_ascii)) run"

text \<open>A directory \<^verbatim>\<open>t\<close> whose one folder is named by a horizontal bar.\<close>

definition box_os :: os where
  "box_os =
     \<lparr>FindFiles = (\<lambda>pattern.
        if pattern = L ''t'' @ [0x5C] @ L ''*.*'' \<or> pattern = L ''t'' @ [0x5C] @ L ''*.''
        then [\<lparr>dwFileAttributes = 0x10, cFileName = [0x2500]\<rparr>] else []),
      uninitialised = (\<lambda>path. \<lparr>dwFileAttributes = 0, cFileName = []\<rparr>),
      wfullpath = (\<lambda>path. path),
      CharUpper = (\<lambda>path. path),
      SetCurrentDirectory = (\<lambda>path. None),
      GetCurrentDirectory = L ''t'',
      volume_name = L ''OS'',
      volume_serial = 0,
      getdrive = 3\<rparr>"

section \<open>A directory with a folder that cannot be opened\<close>

text \<open>
  A directory \<^verbatim>\<open>t\<close> with the folders \<^verbatim>\<open>p\<close> and \<^verbatim>\<open>q\<close>: no search in \<^verbatim>\<open>p\<close> succeeds; \<^verbatim>\<open>q\<close> holds the
  empty folder \<^verbatim>\<open>r\<close>.
\<close>

definition locked_find :: "wstring \<Rightarrow> WIN32_FIND_DATA list" where
  "locked_find pattern =
     (if pattern = L ''t'' @ [0x5C] @ L ''*.*'' then
        [folder ''.'', folder ''..'', folder ''p'', folder ''q'']
      else if pattern = L ''t'' @ [0x5C] @ L ''*.'' then
        [folder ''.'', folder ''..'', folder ''p'', folder ''q'']
      else if pattern = L ''t'' @ [0x5C] @ L ''q'' @ [0x5C] @ L ''*.*'' then
        [folder ''.'', folder ''..'', folder ''r'']
      else if pattern = L ''t'' @ [0x5C] @ L ''q'' @ [0x5C] @ L ''*.'' then
        [folder ''.'', folder ''..'', folder ''r'']
      else if pattern = L ''t'' @ [0x5C] @ L ''q'' @ [0x5C] @ L ''r'' @ [0x5C] @ L ''*.*'' then
        [folder ''.'', folder ''..'']
      else if pattern = L ''t'' @ [0x5C] @ L ''q'' @ [0x5C] @ L ''r'' @ [0x5C] @ L ''*.'' then
        [folder ''.'', folder ''..'']
      else [])"

definition locked_os :: os where
  "locked_os =
     \<lparr>FindFiles = locked_find,
      uninitialised = (\<lambda>path. \<lparr>dwFileAttributes = 0, cFileName = []\<rparr>),
      wfullpath = (\<lambda>path. path),
      CharUpper = (\<lambda>path. path),
      SetCurrentDirectory = (\<lambda>path. None),
      GetCurrentDirectory = L ''t'',
      volume_name = L ''OS'',
      volume_serial = 0,
      getdrive = 3\<rparr>"

section \<open>The calls of a run\<close>

text \<open>
  \<open>called sys g root strPath width prevLine\<close>: in the run that \<^verbatim>\<open>wmain\<close> starts in the
  directory \<open>root\<close>, \<^verbatim>\<open>GetDirectoryStructure\<close> can be called with these arguments.  The
  first call is the one of \<^verbatim>\<open>wmain\<close>; every other call is made by \<^verbatim>\<open>DrawTree\<close>, drawing
  folder \<open>i\<close> of the folders that an earlier call collected, with the line just printed.
\<close>

inductive called :: "os \<Rightarrow> globals \<Rightarrow> wstring \<Rightarrow> wstring \<Rightarrow> nat \<Rightarrow> wstring \<Rightarrow> bool"
  for sys :: os and g :: globals and root :: wstring
where
  from_wmain: "called sys g root root 1 (replicate 10 0x20)"
| from_DrawTree:
    "called sys g root strPath width prevLine \<Longrightarrow>
     length strPath + 4 < STR_MAX \<Longrightarrow>
     FindFiles sys (strPath @ [0x5C, 0x2A, 0x2E, 0x2A]) = found \<Longrightarrow>
     found \<noteq> [] \<Longrightarrow>
     collect found [] [] = (arrFolder, arrFile) \<Longrightarrow>
     HasSubFolder sys strPath = Inr bHasSubFolder \<Longrightarrow>
     i < length arrFolder \<Longrightarrow>
     consoleOut_of g arrFolder width prevLine True bHasSubFolder i = Inr consoleOut \<Longrightarrow>
     child_path strPath (cFileName (arrFolder ! i)) = Inr str \<Longrightarrow>
     called sys g root str (uint_add4 width) consoleOut"

text \<open>The characters that the indentation and the connectors are made of.\<close>

definition drawn_characters :: "wchar set" where
  "drawn_characters = {0x20, 0x2502, 0x7C, 0x251C, 0x2B, 0x2514, 0x5C, 0x2500, 0x2D}"

section \<open>The loops in closed form\<close>

declare indent_loop.simps [simp del]
declare DrawTree_loop.simps [simp del]

lemmas example_defs =
  example_os_def example_find_def folder_def plain_file_def hidden_system_file_def L_def

lemmas run_defs =
  GetDirectoryStructure_body_def DrawTree_def DrawTree_body_def DrawTree_entry_def
  DrawTree_loop.simps and_then_def consoleOut_of_def indent_loop.simps connector_def
  StringCchPrintf_def child_path_def HasSubFolder_def wcscat_s_def wchar_at_def
  is_continuation_def is_directory_def is_dot_or_dotdot_def FILE_ATTRIBUTE_DIRECTORY_def
  uint_pred_def uint_add4_def STR_MAX_def spoof_def

lemma wcscat_s_Inr: "wcscat_s dst n src = Inr out \<longleftrightarrow> length dst + length src < n \<and> out = dst @ src"
  by (auto simp: wcscat_s_def)

lemma wchar_at_Inr: "wchar_at s j = Inr c \<Longrightarrow> c = column s j \<and> j \<le> length s"
  by (auto simp: wchar_at_def column_def split: if_splits)

lemma indent_loop_Inr:
  "indent_loop ascii width prevLine j acc = Inr out \<Longrightarrow> j \<le> uint_pred width \<Longrightarrow>
   j \<le> length prevLine + 1 \<Longrightarrow> length acc < STR_MAX \<Longrightarrow>
     out = acc @ map (\<lambda>k. cell ascii (column prevLine k)) [j..<uint_pred width]
     \<and> uint_pred width \<le> length prevLine + 1 \<and> length out < STR_MAX"
proof (induction ascii width prevLine j acc rule: indent_loop.induct)
  case (1 ascii width prevLine j consoleOut)
  show ?case
  proof (cases "j < uint_pred width")
    case False
    with "1.prems" show ?thesis
      by (simp add: indent_loop.simps)
  next
    case True
    from "1.prems"(1) True obtain c acc' where
      c: "wchar_at prevLine j = Inr c" and
      a: "wcscat_s consoleOut STR_MAX
                     (if is_continuation c then (if \<not> ascii then [0x2502] else [0x7C])
                      else [0x20]) = Inr acc'" and
      r: "indent_loop ascii width prevLine (Suc j) acc' = Inr out"
      by (subst (asm) indent_loop.simps) (auto split: sum.splits)
    from a have acc': "acc' = consoleOut @ [cell ascii c]" and len: "length acc' < STR_MAX"
      by (auto simp: wcscat_s_Inr cell_def)
    from wchar_at_Inr[OF c] have col: "c = column prevLine j" and jl: "j \<le> length prevLine"
      by simp_all
    have p1: "Suc j \<le> uint_pred width" and p2: "Suc j \<le> length prevLine + 1"
      using True jl by simp_all
    note ih = "1.IH"[OF True c a r p1 p2 len]
    then have o: "out = acc' @ map (\<lambda>k. cell ascii (column prevLine k)) [Suc j..<uint_pred width]"
      and b1: "uint_pred width \<le> length prevLine + 1" and b2: "length out < STR_MAX"
      by blast+
    from o col acc' True
    have "out = consoleOut @ map (\<lambda>k. cell ascii (column prevLine k)) [j..<uint_pred width]"
      by (simp add: upt_conv_Cons)
    with b1 b2 show ?thesis by blast
  qed
qed

lemma indent_loop_start:
  assumes "indent_loop ascii width prevLine 0 [] = Inr out"
  shows "out = indentation ascii width prevLine" and "uint_pred width \<le> length prevLine + 1"
    and "uint_pred width < STR_MAX"
  using indent_loop_Inr[OF assms] by (auto simp: indentation_def STR_MAX_def)

lemma length_indentation: "length (indentation ascii width prevLine) = uint_pred width"
  by (simp add: indentation_def)

lemma consoleOut_of_Inr:
  assumes "consoleOut_of g arr width prevLine df has i = Inr line"
  shows "line = indentation (bUseAscii g) width prevLine
            @ connector (bUseAscii g) df has (length arr - 1 \<noteq> i) (cFileName (arr ! i))"
    and "uint_pred width \<le> length prevLine + 1" and "length line < STR_MAX"
  using assms indent_loop_start[of "bUseAscii g" width prevLine]
  by (auto simp: consoleOut_of_def wcscat_s_Inr split: sum.splits)

lemma child_path_Inr:
  "child_path strPath name = Inr str \<longleftrightarrow>
     length strPath + 1 + length name < STR_MAX \<and> str = strPath @ [0x5C] @ name"
  by (auto simp: child_path_def wcscat_s_def split: sum.splits)

lemma and_then_Inr:
  "and_then a b = Inr out \<longleftrightarrow> (\<exists>x y. a = Inr x \<and> b = Inr y \<and> out = x @ y)"
  by (auto simp: and_then_def split: sum.splits)

lemma DrawTree_entry_Inr:
  assumes "DrawTree_entry descend g strPath arr width prevLine df has i = Inr chunk"
  shows "\<exists>line below. consoleOut_of g arr width prevLine df has i = Inr line \<and> chunk = line # below
           \<and> (if df then descend (strPath @ [0x5C] @ cFileName (arr ! i)) (uint_add4 width) line = Inr below
               else below = [])"
  using assms
  by (auto simp: DrawTree_entry_def child_path_Inr split: sum.splits if_splits)

lemma DrawTree_loop_Inr:
  "DrawTree_loop descend g strPath arr width prevLine df has i = Inr out \<Longrightarrow>
     \<exists>chunks. length chunks = length arr - i \<and> out = concat chunks \<and>
        (\<forall>k < length arr - i.
           DrawTree_entry descend g strPath arr width prevLine df has (i + k) = Inr (chunks ! k))"
proof (induction descend g strPath arr width prevLine df has i arbitrary: out rule: DrawTree_loop.induct)
  case (1 descend g strPath arr width prevLine df has i)
  show ?case
  proof (cases "i < length arr")
    case False
    with "1.prems" show ?thesis by (simp add: DrawTree_loop.simps)
  next
    case True
    from "1.prems" True obtain a b where
      a: "DrawTree_entry descend g strPath arr width prevLine df has i = Inr a" and
      b: "DrawTree_loop descend g strPath arr width prevLine df has (Suc i) = Inr b" and
      out: "out = a @ b"
      by (subst (asm) DrawTree_loop.simps) (auto simp: and_then_Inr)
    from "1.IH"[OF True b] obtain chunks where
      ch: "length chunks = length arr - Suc i" "b = concat chunks"
        "\<forall>k < length arr - Suc i.
           DrawTree_entry descend g strPath arr width prevLine df has (Suc i + k) = Inr (chunks ! k)"
      by blast
    have "\<forall>k < length arr - i.
           DrawTree_entry descend g strPath arr width prevLine df has (i + k) = Inr ((a # chunks) ! k)"
    proof (intro allI impI)
      fix k assume k: "k < length arr - i"
      show "DrawTree_entry descend g strPath arr width prevLine df has (i + k) = Inr ((a # chunks) ! k)"
      proof (cases k)
        case 0 with a show ?thesis by simp
      next
        case (Suc k')
        with k ch(3) show ?thesis by simp
      qed
    qed
    with ch(1,2) out True show ?thesis
      by (intro exI[of _ "a # chunks"]) simp
  qed
qed

lemma connector_folder:
  "length name < MAX_PATH \<Longrightarrow>
     connector ascii True has not_last name =
       (if not_last then
          (if ascii then [0x2B, 0x2D, 0x2D, 0x2D] else [0x251C, 0x2500, 0x2500, 0x2500])
        else
          (if ascii then [0x5C, 0x2D, 0x2D, 0x2D] else [0x2514, 0x2500, 0x2500, 0x2500]))
       @ name"
  by (simp add: connector_def StringCchPrintf_def STR_MAX_def MAX_PATH_def)

lemma connector_file:
  "length name < MAX_PATH \<Longrightarrow>
     connector ascii False has not_last name =
       (if has then (if ascii then [0x7C, 0x20, 0x20, 0x20] else [0x2502, 0x20, 0x20, 0x20])
        else [0x20, 0x20, 0x20, 0x20, 0x20])
       @ name"
  by (simp add: connector_def StringCchPrintf_def STR_MAX_def MAX_PATH_def)

lemma consoleOut_file_line:
  assumes "consoleOut_of g arr width prevLine False has i = Inr line"
    and "length (cFileName (arr ! i)) < MAX_PATH"
  shows "line = file_line (bUseAscii g) width prevLine has (cFileName (arr ! i))"
  using consoleOut_of_Inr(1)[OF assms(1)] assms(2)
  by (simp add: connector_file file_line_def)

lemma DrawTree_Inr:
  assumes "DrawTree depth sys g strPath arr width prevLine df = Inr out"
  shows "\<exists>has lines below.
           HasSubFolder sys strPath = Inr has \<and> length lines = length arr \<and>
           length below = length arr \<and>
           out = concat (map (\<lambda>i. lines ! i # below ! i) [0..<length arr]) \<and>
           (\<forall>i < length arr.
              consoleOut_of g arr width prevLine df has i = Inr (lines ! i) \<and>
              (if df then
                 GetDirectoryStructure depth sys g (strPath @ [0x5C] @ cFileName (arr ! i))
                   (uint_add4 width) (lines ! i) = Inr (below ! i)
               else below ! i = []))"
proof -
  from assms obtain has where
    has: "HasSubFolder sys strPath = Inr has" and
    loop: "DrawTree_loop (GetDirectoryStructure depth sys g) g strPath arr width prevLine df has 0
             = Inr out"
    by (auto simp: DrawTree_def DrawTree_body_def split: sum.splits)
  from DrawTree_loop_Inr[OF loop] obtain chunks where
    len: "length chunks = length arr" and out: "out = concat chunks" and
    each: "\<forall>k < length arr.
             DrawTree_entry (GetDirectoryStructure depth sys g) g strPath arr width prevLine df
               has k = Inr (chunks ! k)"
    by auto
  let ?lines = "map hd chunks" and ?below = "map tl chunks"
  have entry: "consoleOut_of g arr width prevLine df has i = Inr (?lines ! i) \<and>
               chunks ! i = ?lines ! i # ?below ! i \<and>
              (if df then
                 GetDirectoryStructure depth sys g (strPath @ [0x5C] @ cFileName (arr ! i))
                   (uint_add4 width) (?lines ! i) = Inr (?below ! i)
               else ?below ! i = [])" if "i < length arr" for i
  proof -
    from each that have
      "DrawTree_entry (GetDirectoryStructure depth sys g) g strPath arr width prevLine df has i
         = Inr (chunks ! i)" by simp
    from DrawTree_entry_Inr[OF this] that len show ?thesis by auto
  qed
  have "chunks = map (\<lambda>i. chunks ! i) [0..<length chunks]"
    by (simp add: map_nth)
  also have "\<dots> = map (\<lambda>i. ?lines ! i # ?below ! i) [0..<length arr]"
    using entry len by (intro map_cong) auto
  finally have "out = concat (map (\<lambda>i. ?lines ! i # ?below ! i) [0..<length arr])"
    using out by simp
  moreover have "\<forall>i < length arr.
              consoleOut_of g arr width prevLine df has i = Inr (?lines ! i) \<and>
              (if df then
                 GetDirectoryStructure depth sys g (strPath @ [0x5C] @ cFileName (arr ! i))
                   (uint_add4 width) (?lines ! i) = Inr (?below ! i)
               else ?below ! i = [])"
    using entry by blast
  moreover have "length ?lines = length arr" "length ?below = length arr"
    using len by simp_all
  ultimately show ?thesis
    using has by blast
qed

lemma collect_filter:
  "collect found arrFolder arrFile =
     (arrFolder @ filter (\<lambda>d. is_directory d \<and> \<not> is_dot_or_dotdot (cFileName d)) found,
      arrFile @ filter (\<lambda>d. \<not> is_directory d) found)"
  by (induction found arbitrary: arrFolder arrFile) simp_all

lemma GetDirectoryStructure_unfold:
  "GetDirectoryStructure (Suc depth) sys g strPath width prevLine =
     (if length strPath + 4 < STR_MAX then
        (if FindFiles sys (strPath @ [0x5C, 0x2A, 0x2E, 0x2A]) = [] then Inr []
         else
           and_then
             (if bShowFiles g then
                DrawTree depth sys g strPath
                  (if filter (\<lambda>d. \<not> is_directory d)
                        (FindFiles sys (strPath @ [0x5C, 0x2A, 0x2E, 0x2A])) \<noteq> []
                   then filter (\<lambda>d. \<not> is_directory d)
                          (FindFiles sys (strPath @ [0x5C, 0x2A, 0x2E, 0x2A])) @ [spoof]
                   else [])
                  width prevLine False
              else Inr [])
             (DrawTree depth sys g strPath
                (filter (\<lambda>d. is_directory d \<and> \<not> is_dot_or_dotdot (cFileName d))
                   (FindFiles sys (strPath @ [0x5C, 0x2A, 0x2E, 0x2A])))
                width prevLine True))
      else Inl InvalidParameter)"
  by (simp add: GetDirectoryStructure_body_def wcscat_s_def collect_filter DrawTree_def
           split: list.splits)

lemma DrawTree_entry_file_kind:
  "DrawTree_entry descend g strPath arr width prevLine False has i
     = DrawTree_entry descend' g strPath arr width prevLine False has i"
  by (simp add: DrawTree_entry_def split: sum.splits)

lemma DrawTree_loop_file_kind:
  "DrawTree_loop descend g strPath arr width prevLine False has i
     = DrawTree_loop descend' g strPath arr width prevLine False has i"
proof (induction "length arr - i" arbitrary: i)
  case 0
  then show ?case by (simp add: DrawTree_loop.simps)
next
  case (Suc n)
  then have "n = length arr - Suc i" and "i < length arr" by simp_all
  with Suc.hyps(1)[of "Suc i"] show ?case
    by (subst (1 2) DrawTree_loop.simps)
       (simp add: DrawTree_entry_file_kind[of descend _ _ _ _ _ _ _ descend'])
qed

lemma DrawTree_file_kind:
  "DrawTree depth sys g strPath arr width prevLine False
     = DrawTree depth' sys g strPath arr width prevLine False"
  by (simp add: DrawTree_def DrawTree_body_def
        DrawTree_loop_file_kind[of "GetDirectoryStructure depth sys g" _ _ _ _ _ _ _
          "GetDirectoryStructure depth' sys g"] split: sum.splits)

lemma concat_singletons: "concat (map (\<lambda>i. [f i]) xs) = map f xs"
  by (induction xs) simp_all

lemma DrawTree_files_Inr:
  assumes "DrawTree depth sys g strPath arr width prevLine False = Inr out"
  shows "\<exists>has. HasSubFolder sys strPath = Inr has \<and> length out = length arr \<and>
           (\<forall>i < length arr. consoleOut_of g arr width prevLine False has i = Inr (out ! i))"
proof -
  from DrawTree_Inr[OF assms] obtain has lines below where
    has: "HasSubFolder sys strPath = Inr has" and
    len: "length lines = length arr" "length below = length arr" and
    out: "out = concat (map (\<lambda>i. lines ! i # below ! i) [0..<length arr])" and
    each: "\<forall>i < length arr.
              consoleOut_of g arr width prevLine False has i = Inr (lines ! i) \<and> below ! i = []"
    by auto
  have "map (\<lambda>i. lines ! i # below ! i) [0..<length arr] = map (\<lambda>i. [lines ! i]) [0..<length arr]"
    using each by (intro map_cong) auto
  with out have "out = map (\<lambda>i. lines ! i) [0..<length arr]"
    by (simp add: concat_singletons)
  moreover have "map (\<lambda>i. lines ! i) [0..<length lines] = lines" by (rule map_nth)
  ultimately have "out = lines" using len by simp
  with has len each show ?thesis by blast
qed

lemma DrawTree_file_lines:
  assumes "DrawTree depth sys g strPath arrFile width prevLine False = Inr out"
    and "list_all (\<lambda>d. length (cFileName d) < MAX_PATH) arrFile"
  shows "\<exists>has. HasSubFolder sys strPath = Inr has \<and>
           out = map (\<lambda>d. file_line (bUseAscii g) width prevLine has (cFileName d)) arrFile"
proof -
  from DrawTree_files_Inr[OF assms(1)] obtain has where
    has: "HasSubFolder sys strPath = Inr has" and len: "length out = length arrFile" and
    each: "\<forall>i < length arrFile. consoleOut_of g arrFile width prevLine False has i = Inr (out ! i)"
    by blast
  have "out ! i = map (\<lambda>d. file_line (bUseAscii g) width prevLine has (cFileName d)) arrFile ! i"
    if "i < length arrFile" for i
  proof -
    from assms(2) that have "length (cFileName (arrFile ! i)) < MAX_PATH"
      by (simp add: list_all_length)
    with each that show ?thesis by (simp add: consoleOut_file_line)
  qed
  with len have "out = map (\<lambda>d. file_line (bUseAscii g) width prevLine has (cFileName d)) arrFile"
    by (intro nth_equalityI) simp_all
  with has show ?thesis by blast
qed

lemma is_directory_bit: "is_directory d \<longleftrightarrow> bit (dwFileAttributes d) 4"
proof -
  have "dwFileAttributes d AND 2 ^ 4 = 0 \<longleftrightarrow> \<not> bit (dwFileAttributes d) 4"
    by (rule and_exp_eq_0_iff_not_bit)
  then show ?thesis
    by (simp add: is_directory_def FILE_ATTRIBUTE_DIRECTORY_def)
qed

lemma GetDirectoryStructure_shown_Inr:
  assumes run: "GetDirectoryStructure (Suc depth) sys g strPath width prevLine = Inr out"
    and shown: "bShowFiles g"
    and found: "FindFiles sys (strPath @ [0x5C, 0x2A, 0x2E, 0x2A]) = found" "found \<noteq> []"
  shows "\<exists>files folders.
           DrawTree depth sys g strPath
             (if filter (\<lambda>d. \<not> is_directory d) found \<noteq> []
              then filter (\<lambda>d. \<not> is_directory d) found @ [spoof] else [])
             width prevLine False = Inr files \<and>
           DrawTree depth sys g strPath
             (filter (\<lambda>d. is_directory d \<and> \<not> is_dot_or_dotdot (cFileName d)) found)
             width prevLine True = Inr folders \<and>
           out = files @ folders"
  using run[unfolded GetDirectoryStructure_unfold] shown found
  by (auto simp: and_then_Inr split: if_splits)

lemma example_listing:
  "FindFiles example_os (L ''t'' @ [0x5C, 0x2A, 0x2E, 0x2A]) =
     [folder ''.'', folder ''..'', folder ''a'', plain_file ''f.txt'',
      hidden_system_file ''h'', folder ''b'']"
  by (simp add: example_defs)

lemma HasSubFolder_failed:
  assumes "FindFiles sys (strPath @ [0x5C, 0x2A, 0x2E]) = []" and "length strPath + 3 < STR_MAX"
  shows "HasSubFolder sys strPath =
           Inr (is_directory (uninitialised sys strPath)
                \<and> \<not> is_dot_or_dotdot (cFileName (uninitialised sys strPath)))"
  using assms by (simp add: HasSubFolder_def wcscat_s_def)

lemma parse_command_line_append:
  "parse_command_line sys (xs @ ys) g p =
     (case parse_command_line sys xs g p of
        Inl ended \<Rightarrow> Inl ended
      | Inr (g', p') \<Rightarrow> parse_command_line sys ys g' p')"
  by (induction xs arbitrary: g p) simp_all

lemma parse_command_line_accepts:
  "list_all (\<lambda>a. \<not> is_help a) xs \<Longrightarrow>
   length (filter (\<lambda>a. \<not> is_switch a) xs) + (if bSetPath g then 1 else 0) \<le> 1 \<Longrightarrow>
   \<exists>g' p'. parse_command_line sys xs g p = Inr (g', p') \<and>
      (bSetPath g' \<longleftrightarrow> bSetPath g \<or> filter (\<lambda>a. \<not> is_switch a) xs \<noteq> [])"
proof (induction xs arbitrary: g p)
  case Nil
  then show ?case by simp
next
  case (Cons a xs)
  show ?case
  proof (cases "is_switch a")
    case True
    with Cons.prems have nh: "towlower (arg_char a 1) \<noteq> 0x3F"
      and rest: "list_all (\<lambda>a. \<not> is_help a) xs"
      and cnt: "length (filter (\<lambda>a. \<not> is_switch a) xs) + (if bSetPath g then 1 else 0) \<le> 1"
      by (simp_all add: is_help_def)
    from Cons.IH[OF rest, of "g\<lparr>bShowFiles := True\<rparr>" p] Cons.IH[OF rest, of "g\<lparr>bUseAscii := True\<rparr>" p]
         Cons.IH[OF rest, of g p] cnt True nh
    show ?thesis
      by (auto simp: is_switch_def)
  next
    case False
    with Cons.prems have ns: "\<not> bSetPath g"
      and rest: "list_all (\<lambda>a. \<not> is_help a) xs"
      and none: "filter (\<lambda>a. \<not> is_switch a) xs = []"
      by (simp_all split: if_splits)
    from none have "length (filter (\<lambda>a. \<not> is_switch a) xs)
              + (if bSetPath (g\<lparr>bSetPath := True\<rparr>) then 1 else 0) \<le> 1" by simp
    from Cons.IH[OF rest this, of "wfullpath sys a"] False ns
    show ?thesis
      by (simp add: is_switch_def)
  qed
qed

lemma is_continuation_to_ascii: "is_continuation (to_ascii c) = is_continuation c"
  by (simp add: is_continuation_def to_ascii_def)

lemma cell_to_ascii: "cell True (to_ascii c) = to_ascii (cell False c)"
  by (simp add: cell_def is_continuation_to_ascii) (simp add: to_ascii_def)

lemma to_ascii_0: "to_ascii 0 = 0"
  by (simp add: to_ascii_def)

lemma wchar_at_to_ascii: "wchar_at (map to_ascii s) j = map_sum id to_ascii (wchar_at s j)"
  by (simp add: wchar_at_def to_ascii_0)

lemma wcscat_s_to_ascii:
  "wcscat_s (map to_ascii dst) n (map to_ascii src) = map_sum id (map to_ascii) (wcscat_s dst n src)"
  by (simp add: wcscat_s_def)

lemma indent_loop_to_ascii:
  "indent_loop True width (map to_ascii prevLine) j (map to_ascii acc)
     = map_sum id (map to_ascii) (indent_loop False width prevLine j acc)"
proof (induction False width prevLine j acc rule: indent_loop.induct)
  case (1 width prevLine j consoleOut)
  show ?case
  proof (cases "j < uint_pred width")
    case False
    then show ?thesis by (simp add: indent_loop.simps)
  next
    case True
    show ?thesis
    proof (cases "wchar_at prevLine j")
      case (Inl e)
      with True show ?thesis
        by (subst (1 2) indent_loop.simps) (simp add: wchar_at_to_ascii)
    next
      case (Inr c)
      let ?u = "if is_continuation c then (if \<not> False then [0x2502] else [0x7C]) else [0x20]"
      let ?a = "if is_continuation (to_ascii c) then (if \<not> True then [0x2502] else [0x7C]) else [0x20]"
      have "?a = (if is_continuation c then [0x7C] else [0x20])"
        by (simp add: is_continuation_to_ascii)
      moreover have "map to_ascii ?u = (if is_continuation c then [0x7C] else [0x20])"
        by (simp add: to_ascii_def)
      ultimately have a: "?a = map to_ascii ?u" by simp
      show ?thesis
      proof (cases "wcscat_s consoleOut STR_MAX ?u")
        case (Inl e)
        with True Inr a show ?thesis
          by (subst (1 2) indent_loop.simps)
             (simp add: wchar_at_to_ascii wcscat_s_to_ascii del: if_not_P)
      next
        case acc': (Inr acc')
        from "1.hyps"[OF True Inr acc'] True Inr a acc' show ?thesis
          by (subst (1 2) indent_loop.simps)
             (simp add: wchar_at_to_ascii wcscat_s_to_ascii)
      qed
    qed
  qed
qed

lemma map_to_ascii_name: "no_box_characters name \<Longrightarrow> map to_ascii name = name"
  by (rule map_idI) (simp add: no_box_characters_def list_all_iff to_ascii_def)

lemma connector_to_ascii:
  "no_box_characters name \<Longrightarrow>
     connector True drawfolder has not_last name
       = map to_ascii (connector False drawfolder has not_last name)"
proof -
  assume "no_box_characters name"
  then have "map to_ascii (take n name) = take n name" for n
    by (simp add: take_map[symmetric] map_to_ascii_name)
  then show ?thesis
    by (simp add: connector_def StringCchPrintf_def STR_MAX_def to_ascii_def)
qed

lemma consoleOut_of_to_ascii:
  assumes "no_box_characters (cFileName (arr ! i))"
  shows "consoleOut_of (g\<lparr>bUseAscii := True\<rparr>) arr width (map to_ascii prevLine) drawfolder has i
           = map_sum id (map to_ascii)
               (consoleOut_of (g\<lparr>bUseAscii := False\<rparr>) arr width prevLine drawfolder has i)"
proof -
  have "indent_loop True width (map to_ascii prevLine) 0 []
          = map_sum id (map to_ascii) (indent_loop False width prevLine 0 [])"
    using indent_loop_to_ascii[of width prevLine 0 "[]"] by simp
  then show ?thesis
    by (cases "indent_loop False width prevLine 0 []")
       (simp_all add: consoleOut_of_def connector_to_ascii[OF assms] wcscat_s_to_ascii)
qed

lemma and_then_substituted:
  "and_then (substituted a) (substituted b) = substituted (and_then a b)"
  by (cases a; cases b) (simp_all add: and_then_def substituted_def)

lemma DrawTree_entry_to_ascii:
  assumes "\<And>str w l. descendA str w (map to_ascii l) = substituted (descendU str w l)"
    and "no_box_characters (cFileName (arr ! i))"
  shows "DrawTree_entry descendA (g\<lparr>bUseAscii := True\<rparr>) strPath arr width
           (map to_ascii prevLine) drawfolder has i
         = substituted (DrawTree_entry descendU (g\<lparr>bUseAscii := False\<rparr>) strPath arr width
             prevLine drawfolder has i)"
proof (cases "consoleOut_of (g\<lparr>bUseAscii := False\<rparr>) arr width prevLine drawfolder has i")
  case (Inl e)
  then show ?thesis
    by (simp add: DrawTree_entry_def consoleOut_of_to_ascii[OF assms(2)] substituted_def)
next
  case line: (Inr line)
  show ?thesis
  proof (cases "child_path strPath (cFileName (arr ! i))")
    case (Inl e)
    with line show ?thesis
      by (simp add: DrawTree_entry_def consoleOut_of_to_ascii[OF assms(2)] substituted_def)
  next
    case str: (Inr str)
    show ?thesis
    proof (cases "descendU str (uint_add4 width) line")
      case (Inl e)
      with line str show ?thesis
        by (simp add: DrawTree_entry_def consoleOut_of_to_ascii[OF assms(2)] assms(1))
           (simp add: substituted_def)
    next
      case (Inr below)
      with line str show ?thesis
        by (simp add: DrawTree_entry_def consoleOut_of_to_ascii[OF assms(2)] assms(1))
           (simp add: substituted_def)
    qed
  qed
qed

lemma DrawTree_loop_to_ascii:
  assumes "\<And>str w l. descendA str w (map to_ascii l) = substituted (descendU str w l)"
    and "list_all (\<lambda>d. no_box_characters (cFileName d)) arr"
  shows "DrawTree_loop descendA (g\<lparr>bUseAscii := True\<rparr>) strPath arr width
           (map to_ascii prevLine) drawfolder has i
         = substituted (DrawTree_loop descendU (g\<lparr>bUseAscii := False\<rparr>) strPath arr width
             prevLine drawfolder has i)"
proof (induction "length arr - i" arbitrary: i)
  case 0
  then show ?case by (simp add: DrawTree_loop.simps substituted_def)
next
  case (Suc n)
  then have n: "n = length arr - Suc i" and i: "i < length arr" by simp_all
  from assms(2) i have "no_box_characters (cFileName (arr ! i))"
    by (simp add: list_all_length)
  then have "DrawTree_entry descendA (g\<lparr>bUseAscii := True\<rparr>) strPath arr width
           (map to_ascii prevLine) drawfolder has i
         = substituted (DrawTree_entry descendU (g\<lparr>bUseAscii := False\<rparr>) strPath arr width
             prevLine drawfolder has i)"
    by (rule DrawTree_entry_to_ascii[OF _ _, rotated]) (rule assms(1))
  with Suc.hyps(1)[OF n] i show ?case
    by (subst (1 2) DrawTree_loop.simps) (simp add: and_then_substituted)
qed

lemma DrawTree_body_to_ascii:
  assumes "\<And>str w l. descendA str w (map to_ascii l) = substituted (descendU str w l)"
    and "list_all (\<lambda>d. no_box_characters (cFileName d)) arr"
  shows "DrawTree_body descendA sys (g\<lparr>bUseAscii := True\<rparr>) strPath arr width
           (map to_ascii prevLine) drawfolder
         = substituted (DrawTree_body descendU sys (g\<lparr>bUseAscii := False\<rparr>) strPath arr width
             prevLine drawfolder)"
proof -
  have "DrawTree_loop descendA (g\<lparr>bUseAscii := True\<rparr>) strPath arr width
           (map to_ascii prevLine) drawfolder has 0
         = substituted (DrawTree_loop descendU (g\<lparr>bUseAscii := False\<rparr>) strPath arr width
             prevLine drawfolder has 0)" for has
    by (rule DrawTree_loop_to_ascii) (rule assms(1), rule assms(2))
  then show ?thesis
    by (cases "HasSubFolder sys strPath") (simp_all add: DrawTree_body_def substituted_def)
qed

lemma GetDirectoryStructure_body_unfold:
  "GetDirectoryStructure_body descend sys g strPath width prevLine =
     (if length strPath + 4 < STR_MAX then
        (if FindFiles sys (strPath @ [0x5C, 0x2A, 0x2E, 0x2A]) = [] then Inr []
         else
           and_then
             (if bShowFiles g then
                DrawTree_body descend sys g strPath
                  (if filter (\<lambda>d. \<not> is_directory d)
                        (FindFiles sys (strPath @ [0x5C, 0x2A, 0x2E, 0x2A])) \<noteq> []
                   then filter (\<lambda>d. \<not> is_directory d)
                          (FindFiles sys (strPath @ [0x5C, 0x2A, 0x2E, 0x2A])) @ [spoof]
                   else [])
                  width prevLine False
              else Inr [])
             (DrawTree_body descend sys g strPath
                (filter (\<lambda>d. is_directory d \<and> \<not> is_dot_or_dotdot (cFileName d))
                   (FindFiles sys (strPath @ [0x5C, 0x2A, 0x2E, 0x2A])))
                width prevLine True))
      else Inl InvalidParameter)"
  by (simp add: GetDirectoryStructure_body_def wcscat_s_def collect_filter split: list.splits)

lemma GetDirectoryStructure_body_to_ascii:
  assumes "\<And>str w l. descendA str w (map to_ascii l) = substituted (descendU str w l)"
    and "\<And>pattern. list_all (\<lambda>d. no_box_characters (cFileName d)) (FindFiles sys pattern)"
  shows "GetDirectoryStructure_body descendA sys (g\<lparr>bUseAscii := True\<rparr>) strPath width
           (map to_ascii prevLine)
         = substituted (GetDirectoryStructure_body descendU sys (g\<lparr>bUseAscii := False\<rparr>)
             strPath width prevLine)"
proof -
  let ?found = "FindFiles sys (strPath @ [0x5C, 0x2A, 0x2E, 0x2A])"
  let ?files = "filter (\<lambda>d. \<not> is_directory d) ?found"
  let ?folders = "filter (\<lambda>d. is_directory d \<and> \<not> is_dot_or_dotdot (cFileName d)) ?found"
  have names: "list_all (\<lambda>d. no_box_characters (cFileName d)) ?found"
    by (rule assms(2))
  then have folders: "list_all (\<lambda>d. no_box_characters (cFileName d)) ?folders"
    and files: "list_all (\<lambda>d. no_box_characters (cFileName d))
                  (if ?files \<noteq> [] then ?files @ [spoof] else [])"
    by (auto simp: list_all_iff spoof_def no_box_characters_def)
  have d: "DrawTree_body descendA sys (g\<lparr>bUseAscii := True\<rparr>) strPath ?folders width
           (map to_ascii prevLine) True
         = substituted (DrawTree_body descendU sys (g\<lparr>bUseAscii := False\<rparr>) strPath ?folders
             width prevLine True)"
    by (rule DrawTree_body_to_ascii) (rule assms(1), rule folders)
  have f: "DrawTree_body descendA sys (g\<lparr>bUseAscii := True\<rparr>) strPath
           (if ?files \<noteq> [] then ?files @ [spoof] else []) width
           (map to_ascii prevLine) False
         = substituted (DrawTree_body descendU sys (g\<lparr>bUseAscii := False\<rparr>) strPath
             (if ?files \<noteq> [] then ?files @ [spoof] else []) width prevLine False)"
    by (rule DrawTree_body_to_ascii) (rule assms(1), rule files)
  have e: "substituted (Inr []) = Inr []" "substituted (Inl err) = Inl err" for err
    by (simp_all add: substituted_def)
  show ?thesis
    unfolding GetDirectoryStructure_body_unfold
    by (simp add: d f e and_then_substituted[symmetric])
qed

lemma GetDirectoryStructure_to_ascii:
  assumes "\<And>pattern. list_all (\<lambda>d. no_box_characters (cFileName d)) (FindFiles sys pattern)"
  shows "GetDirectoryStructure depth sys (g\<lparr>bUseAscii := True\<rparr>) strPath width
           (map to_ascii prevLine)
         = substituted (GetDirectoryStructure depth sys (g\<lparr>bUseAscii := False\<rparr>) strPath
             width prevLine)"
proof (induction depth arbitrary: strPath width prevLine)
  case 0
  show ?case by (simp add: substituted_def)
next
  case (Suc depth)
  have "GetDirectoryStructure_body (GetDirectoryStructure depth sys (g\<lparr>bUseAscii := True\<rparr>))
          sys (g\<lparr>bUseAscii := True\<rparr>) strPath width (map to_ascii prevLine)
        = substituted
            (GetDirectoryStructure_body (GetDirectoryStructure depth sys (g\<lparr>bUseAscii := False\<rparr>))
               sys (g\<lparr>bUseAscii := False\<rparr>) strPath width prevLine)"
    by (rule GetDirectoryStructure_body_to_ascii) (rule Suc.IH, rule assms)
  then show ?case by simp
qed

lemma example_no_box:
  "list_all (\<lambda>d. no_box_characters (cFileName d)) (FindFiles example_os pattern)"
  by (simp add: example_defs no_box_characters_def)

lemma drawn_continuation:
  "c \<in> drawn_characters \<Longrightarrow> is_continuation c \<longleftrightarrow> c \<in> {0x251C, 0x2502, 0x2B, 0x7C}"
  by (auto simp: drawn_characters_def is_continuation_def)

lemma cell_drawn: "cell ascii c \<in> drawn_characters"
  by (simp add: cell_def drawn_characters_def)

lemma connector_folder_take:
  "connector ascii True has not_last name =
     (if not_last then
        (if ascii then [0x2B, 0x2D, 0x2D, 0x2D] else [0x251C, 0x2500, 0x2500, 0x2500])
      else
        (if ascii then [0x5C, 0x2D, 0x2D, 0x2D] else [0x2514, 0x2500, 0x2500, 0x2500]))
     @ take 2043 name"
  by (simp add: connector_def StringCchPrintf_def STR_MAX_def)

lemma connector_folder_head:
  assumes "k < 4"
  shows "connector ascii True has not_last name ! k \<in> drawn_characters"
proof -
  let ?glyphs = "if not_last then
        (if ascii then [0x2B, 0x2D, 0x2D, 0x2D] else [0x251C, 0x2500, 0x2500, 0x2500])
      else
        (if ascii then [0x5C, 0x2D, 0x2D, 0x2D] else [0x2514, 0x2500, 0x2500, 0x2500 :: wchar])"
  have len: "length ?glyphs = 4" by simp
  from assms have "k = 0 \<or> k = 1 \<or> k = 2 \<or> k = 3" by arith
  then have "?glyphs ! k \<in> drawn_characters"
    by (elim disjE) (simp_all add: drawn_characters_def)
  moreover from assms len have "(?glyphs @ take 2043 name) ! k = ?glyphs ! k"
    by (simp only: nth_append) simp
  ultimately show ?thesis
    by (simp only: connector_folder_take)
qed

lemma connector_folder_length: "4 \<le> length (connector ascii True has not_last name)"
  by (simp add: connector_folder_take)

lemma called_invariant:
  assumes "called sys g root strPath width prevLine"
  shows "0 < width \<and> width - 1 \<le> length prevLine \<and>
         (\<forall>j < width - 1. prevLine ! j \<in> drawn_characters)"
  using assms
proof (induction rule: called.induct)
  case from_wmain
  show ?case by simp
next
  case (from_DrawTree strPath width prevLine found arrFolder arrFile has i consoleOut str)
  from from_DrawTree.IH have w: "0 < width" by simp
  then have up: "uint_pred width = width - 1" by (simp add: uint_pred_def)
  let ?ind = "indentation (bUseAscii g) width prevLine"
  let ?con = "connector (bUseAscii g) True has (length arrFolder - 1 \<noteq> i) (cFileName (arrFolder ! i))"
  from consoleOut_of_Inr[OF from_DrawTree.hyps(8)] have
    line: "consoleOut = ?ind @ ?con" and small: "length consoleOut < STR_MAX"
    by simp_all
  have li: "length ?ind = width - 1" by (simp add: length_indentation up)
  with small line have "width - 1 < STR_MAX" by simp
  with w have add: "uint_add4 width = width + 4"
    by (simp add: uint_add4_def STR_MAX_def)
  have "consoleOut ! j \<in> drawn_characters" if "j < width + 3" for j
  proof (cases "j < width - 1")
    case True
    with li line have "consoleOut ! j = ?ind ! j" by (simp add: nth_append)
    also from True up have "\<dots> = cell (bUseAscii g) (column prevLine j)"
      by (simp add: indentation_def)
    finally show ?thesis by (simp add: cell_drawn)
  next
    case False
    with li line have "consoleOut ! j = ?con ! (j - (width - 1))" by (simp add: nth_append)
    moreover from False that w have "j - (width - 1) < 4" by simp
    ultimately show ?thesis by (simp add: connector_folder_head)
  qed
  moreover from line li connector_folder_length[of "bUseAscii g" has "length arrFolder - 1 \<noteq> i" "cFileName (arrFolder ! i)"] w
  have "width + 3 \<le> length consoleOut" by simp
  ultimately show ?case using add by simp
qed

lemma GetDirectoryStructure_Inr_fits:
  assumes "GetDirectoryStructure depth sys g strPath width prevLine = Inr out"
  shows "length strPath + 4 < STR_MAX"
proof -
  from assms obtain d where "depth = Suc d" by (cases depth) simp_all
  with assms show ?thesis
    by (simp only: GetDirectoryStructure_unfold split: if_splits) simp_all
qed

text \<open>
  Every line that a call of the run prints is the \<^verbatim>\<open>consoleOut\<close> of an entry drawn in a call
  of the run.
\<close>

lemma printed_lines_come_from_calls:
  assumes "called sys g root strPath width prevLine"
    and "GetDirectoryStructure depth sys g strPath width prevLine = Inr out"
    and "line \<in> set out"
  shows "\<exists>strPath' width' prevLine' arr drawfolder has i.
           called sys g root strPath' width' prevLine' \<and>
           consoleOut_of g arr width' prevLine' drawfolder has i = Inr line"
  using assms
proof (induction depth arbitrary: strPath width prevLine out)
  case 0
  then show ?case by simp
next
  case (Suc depth)
  let ?found = "FindFiles sys (strPath @ [0x5C, 0x2A, 0x2E, 0x2A])"
  let ?files = "filter (\<lambda>d. \<not> is_directory d) ?found"
  let ?arrFile = "if ?files \<noteq> [] then ?files @ [spoof] else []"
  let ?folders = "filter (\<lambda>d. is_directory d \<and> \<not> is_dot_or_dotdot (cFileName d)) ?found"
  note call = Suc.prems(1)
  from GetDirectoryStructure_Inr_fits[OF Suc.prems(2)] have fits: "length strPath + 4 < STR_MAX" .
  have ne: "?found \<noteq> []"
  proof
    assume "?found = []"
    with Suc.prems(2) fits have "out = []"
      by (simp only: GetDirectoryStructure_unfold if_True) simp
    with Suc.prems(3) show False by simp
  qed
  with Suc.prems(2) fits obtain filesOut foldersOut where
    fo: "(if bShowFiles g then DrawTree depth sys g strPath ?arrFile width prevLine False
          else Inr []) = Inr filesOut" and
    dirs: "DrawTree depth sys g strPath ?folders width prevLine True = Inr foldersOut" and
    out: "out = filesOut @ foldersOut"
    by (simp only: GetDirectoryStructure_unfold and_then_Inr if_True if_False) blast
  from Suc.prems(3) out consider "line \<in> set filesOut" | "line \<in> set foldersOut" by auto
  then show ?case
  proof cases
    case 1
    with fo have shown: "bShowFiles g" by (auto split: if_splits)
    with fo have "DrawTree depth sys g strPath ?arrFile width prevLine False = Inr filesOut"
      by simp
    from DrawTree_files_Inr[OF this] obtain has where
      len: "length filesOut = length ?arrFile" and
      each: "\<forall>i < length ?arrFile.
               consoleOut_of g ?arrFile width prevLine False has i = Inr (filesOut ! i)"
      by blast
    from 1 obtain i where "i < length filesOut" "filesOut ! i = line"
      by (auto simp: in_set_conv_nth)
    with len each have "consoleOut_of g ?arrFile width prevLine False has i = Inr line"
      by auto
    with call show ?thesis by blast
  next
    case 2
    from DrawTree_Inr[OF dirs] obtain has lines below where
      has: "HasSubFolder sys strPath = Inr has" and
      len: "length lines = length ?folders" "length below = length ?folders" and
      fout: "foldersOut = concat (map (\<lambda>i. lines ! i # below ! i) [0..<length ?folders])" and
      each: "\<forall>i < length ?folders.
               consoleOut_of g ?folders width prevLine True has i = Inr (lines ! i) \<and>
               GetDirectoryStructure depth sys g (strPath @ [0x5C] @ cFileName (?folders ! i))
                 (uint_add4 width) (lines ! i) = Inr (below ! i)"
      by auto
    from 2 fout obtain i where i: "i < length ?folders"
      and where_: "line = lines ! i \<or> line \<in> set (below ! i)"
      by auto
    from each i have
      line_i: "consoleOut_of g ?folders width prevLine True has i = Inr (lines ! i)" and
      sub: "GetDirectoryStructure depth sys g (strPath @ [0x5C] @ cFileName (?folders ! i))
              (uint_add4 width) (lines ! i) = Inr (below ! i)"
      by simp_all
    from where_ show ?thesis
    proof
      assume "line = lines ! i"
      with line_i call show ?thesis by blast
    next
      assume inside: "line \<in> set (below ! i)"
      from GetDirectoryStructure_Inr_fits[OF sub] have
        "child_path strPath (cFileName (?folders ! i))
           = Inr (strPath @ [0x5C] @ cFileName (?folders ! i))"
        by (simp add: child_path_Inr)
      from from_DrawTree[OF call fits refl ne collect_filter[of ?found "[]" "[]", simplified]
             has i line_i this]
      have "called sys g root (strPath @ [0x5C] @ cFileName (?folders ! i)) (uint_add4 width)
              (lines ! i)" .
      from Suc.IH[OF this sub inside] show ?thesis .
    qed
  qed
qed

lemma example_call:
  "called example_os \<lparr>bShowFiles = False, bUseAscii = False, bSetPath = False\<rparr> (L ''t'')
     (L ''t'' @ [0x5C] @ L ''a'') 5 [0x251C, 0x2500, 0x2500, 0x2500, 0x61]"
proof -
  let ?g = "\<lparr>bShowFiles = False, bUseAscii = False, bSetPath = False\<rparr>"
  let ?found = "[folder ''.'', folder ''..'', folder ''a'', plain_file ''f.txt'',
                 hidden_system_file ''h'', folder ''b'']"
  have f1: "length (L ''t'') + 4 < STR_MAX"
    by (simp add: L_def STR_MAX_def)
  have f2: "FindFiles example_os (L ''t'' @ [0x5C, 0x2A, 0x2E, 0x2A]) = ?found"
    by (rule example_listing)
  have f3: "?found \<noteq> []"
    by simp
  have f4: "collect ?found [] []
              = ([folder ''a'', folder ''b''], [plain_file ''f.txt'', hidden_system_file ''h''])"
    by (simp add: example_defs is_directory_def is_dot_or_dotdot_def
          FILE_ATTRIBUTE_DIRECTORY_def)
  have f5: "HasSubFolder example_os (L ''t'') = Inr True"
    by (simp add: example_defs run_defs)
  have f6: "0 < length [folder ''a'', folder ''b'']"
    by simp
  have f7: "consoleOut_of ?g [folder ''a'', folder ''b''] 1 (replicate 10 0x20) True True 0
              = Inr [0x251C, 0x2500, 0x2500, 0x2500, 0x61]"
    by (simp add: example_defs run_defs)
  have f8: "child_path (L ''t'') (cFileName ([folder ''a'', folder ''b''] ! 0))
              = Inr (L ''t'' @ [0x5C] @ L ''a'')"
    by (simp add: example_defs run_defs)
  have "uint_add4 1 = 5"
    by (simp add: uint_add4_def)
  with from_DrawTree[OF from_wmain f1 f2 f3 f4 f5 f6 f7 f8] show ?thesis
    by simp
qed

section \<open>Runs that return\<close>

text \<open>
  Two facts of the file system bound every buffer of the program.  A name that a search
  finds is a \<^verbatim>\<open>cFileName\<close>, a string in an array of \<^verbatim>\<open>MAX_PATH\<close> code units; and
  \<^verbatim>\<open>FindFirstFile\<close> fails for a pattern of \<^verbatim>\<open>MAX_PATH\<close> or more characters.  Then a directory
  that can be opened has a path of fewer than \<^verbatim>\<open>MAX_PATH - 4\<close> characters, the width of its
  call is at most four times that length plus one, and every line and every path fits in
  \<^verbatim>\<open>STR_MAX\<close> code units.  Each nested call lengthens the path, so a depth of recursion of
  \<^verbatim>\<open>MAX_PATH\<close> less the length of the path is enough for the call to return its lines.
\<close>

lemma indent_loop_returns_from:
  assumes "uint_pred width \<le> length prevLine + 1" and "uint_pred width < STR_MAX"
    and "j \<le> uint_pred width" and "length acc = j"
  shows "indent_loop ascii width prevLine j acc
           = Inr (acc @ map (\<lambda>k. cell ascii (column prevLine k)) [j..<uint_pred width])"
  using assms(3,4)
proof (induction "uint_pred width - j" arbitrary: j acc)
  case 0
  then show ?case by (simp add: indent_loop.simps)
next
  case (Suc n)
  then have j: "j < uint_pred width" and n: "n = uint_pred width - Suc j" by simp_all
  with assms(1) have read: "wchar_at prevLine j = Inr (column prevLine j)"
    by (auto simp: wchar_at_def column_def)
  let ?c = "cell ascii (column prevLine j)"
  from j Suc.prems(2) assms(2) have
    cat: "wcscat_s acc STR_MAX
            (if is_continuation (column prevLine j) then (if \<not> ascii then [0x2502] else [0x7C])
             else [0x20]) = Inr (acc @ [?c])"
    by (simp add: wcscat_s_def cell_def)
  from j have "Suc j \<le> uint_pred width" by simp
  moreover from Suc.prems(2) have "length (acc @ [?c]) = Suc j" by simp
  ultimately have "indent_loop ascii width prevLine (Suc j) (acc @ [?c])
      = Inr ((acc @ [?c]) @ map (\<lambda>k. cell ascii (column prevLine k)) [Suc j..<uint_pred width])"
    using Suc.hyps(1)[OF n] by blast
  with j read cat show ?case
    by (subst indent_loop.simps) (simp add: upt_conv_Cons)
qed

lemma indent_loop_returns:
  assumes "uint_pred width \<le> length prevLine + 1" and "uint_pred width < STR_MAX"
  shows "indent_loop ascii width prevLine 0 [] = Inr (indentation ascii width prevLine)"
  using indent_loop_returns_from[OF assms, of 0 "[]" ascii] by (simp add: indentation_def)

lemma consoleOut_of_returns:
  assumes "uint_pred width \<le> length prevLine + 1"
    and "uint_pred width
           + length (connector (bUseAscii g) drawfolder has (length arr - 1 \<noteq> i)
                       (cFileName (arr ! i))) < STR_MAX"
  shows "consoleOut_of g arr width prevLine drawfolder has i
           = Inr (indentation (bUseAscii g) width prevLine
                  @ connector (bUseAscii g) drawfolder has (length arr - 1 \<noteq> i)
                      (cFileName (arr ! i)))"
proof -
  from assms(2) have "uint_pred width < STR_MAX" by simp
  from indent_loop_returns[OF assms(1) this] assms(2) show ?thesis
    by (simp add: consoleOut_of_def wcscat_s_def length_indentation)
qed

lemma DrawTree_loop_returns:
  assumes "\<And>k. i \<le> k \<Longrightarrow> k < length arr \<Longrightarrow>
             DrawTree_entry descend g strPath arr width prevLine drawfolder has k = Inr (chunk k)"
  shows "DrawTree_loop descend g strPath arr width prevLine drawfolder has i
           = Inr (concat (map chunk [i..<length arr]))"
  using assms
proof (induction "length arr - i" arbitrary: i)
  case 0
  then show ?case by (simp add: DrawTree_loop.simps)
next
  case (Suc n)
  then have i: "i < length arr" and n: "n = length arr - Suc i" by simp_all
  from Suc.prems[of i] i have e: "DrawTree_entry descend g strPath arr width prevLine drawfolder has i
           = Inr (chunk i)" by simp
  have "DrawTree_loop descend g strPath arr width prevLine drawfolder has (Suc i)
           = Inr (concat (map chunk [Suc i..<length arr]))"
    by (rule Suc.hyps(1)[OF n]) (simp add: Suc.prems)
  with e i show ?case
    by (subst DrawTree_loop.simps) (simp add: and_then_def upt_conv_Cons)
qed

lemma HasSubFolder_returns:
  assumes "length strPath + 3 < STR_MAX"
  shows "\<exists>has. HasSubFolder sys strPath = Inr has"
  using assms by (simp add: HasSubFolder_def wcscat_s_def split: list.splits)

lemma map_nth_arr: "map (\<lambda>i. f (arr ! i)) [0..<length arr] = map f arr"
  by (rule nth_equalityI) simp_all

lemma DrawTree_files_returns:
  assumes fits: "length strPath + 4 < MAX_PATH"
    and w: "0 < width" "width \<le> 4 * length strPath + 1" "width - 1 \<le> length prevLine"
    and arr: "list_all (\<lambda>d. length (cFileName d) < MAX_PATH) arr"
  shows "\<exists>has. HasSubFolder sys strPath = Inr has \<and>
           DrawTree depth sys g strPath arr width prevLine False
             = Inr (map (\<lambda>d. file_line (bUseAscii g) width prevLine has (cFileName d)) arr)"
proof -
  from fits have "length strPath + 3 < STR_MAX" by (simp add: MAX_PATH_def STR_MAX_def)
  from HasSubFolder_returns[OF this] obtain has where has: "HasSubFolder sys strPath = Inr has"
    by blast
  from w(1) have up: "uint_pred width = width - 1" by (simp add: uint_pred_def)
  let ?line = "\<lambda>d. file_line (bUseAscii g) width prevLine has (cFileName d)"
  have entry: "DrawTree_entry (GetDirectoryStructure depth sys g) g strPath arr width prevLine
                 False has k = Inr [?line (arr ! k)]" if "k < length arr" for k
  proof -
    from arr that have name: "length (cFileName (arr ! k)) < MAX_PATH"
      by (simp add: list_all_length)
    then have "length (connector (bUseAscii g) False has (length arr - 1 \<noteq> k)
                         (cFileName (arr ! k))) \<le> 5 + length (cFileName (arr ! k))"
      by (simp add: connector_file)
    with name fits w(2) up have
      "uint_pred width + length (connector (bUseAscii g) False has (length arr - 1 \<noteq> k)
                         (cFileName (arr ! k))) < STR_MAX"
      by (simp add: MAX_PATH_def STR_MAX_def)
    moreover from w(3) up have "uint_pred width \<le> length prevLine + 1" by simp
    ultimately have "consoleOut_of g arr width prevLine False has k
           = Inr (indentation (bUseAscii g) width prevLine
                  @ connector (bUseAscii g) False has (length arr - 1 \<noteq> k)
                      (cFileName (arr ! k)))"
      by (intro consoleOut_of_returns)
    with name show ?thesis
      by (simp add: DrawTree_entry_def connector_file file_line_def)
  qed
  have "DrawTree_loop (GetDirectoryStructure depth sys g) g strPath arr width prevLine False has 0
          = Inr (concat (map (\<lambda>k. [?line (arr ! k)]) [0..<length arr]))"
    by (rule DrawTree_loop_returns) (simp add: entry)
  moreover have "map (\<lambda>k. ?line (arr ! k)) [0..<length arr] = map ?line arr"
    by (rule map_nth_arr)
  ultimately have "DrawTree depth sys g strPath arr width prevLine False = Inr (map ?line arr)"
    using has by (simp add: DrawTree_def DrawTree_body_def concat_singletons)
  with has show ?thesis by blast
qed

lemma DrawTree_folders_returns:
  assumes fits: "length strPath + 4 < MAX_PATH"
    and w: "0 < width" "width \<le> 4 * length strPath + 1" "width - 1 \<le> length prevLine"
    and arr: "list_all (\<lambda>d. length (cFileName d) < MAX_PATH) arr"
    and sub: "\<And>i. i < length arr \<Longrightarrow>
                \<exists>b. descend (strPath @ [0x5C] @ cFileName (arr ! i)) (uint_add4 width)
                      (folder_line (bUseAscii g) width prevLine arr i) = Inr b"
  shows "\<exists>below. length below = length arr \<and>
           DrawTree_body descend sys g strPath arr width prevLine True
             = Inr (concat (map (\<lambda>i. folder_line (bUseAscii g) width prevLine arr i # below ! i)
                      [0..<length arr])) \<and>
           (\<forall>i < length arr.
              descend (strPath @ [0x5C] @ cFileName (arr ! i)) (uint_add4 width)
                (folder_line (bUseAscii g) width prevLine arr i) = Inr (below ! i))"
proof -
  from fits have "length strPath + 3 < STR_MAX" by (simp add: MAX_PATH_def STR_MAX_def)
  from HasSubFolder_returns[OF this] obtain has where has: "HasSubFolder sys strPath = Inr has"
    by blast
  from w(1) have up: "uint_pred width = width - 1" by (simp add: uint_pred_def)
  let ?line = "\<lambda>i. folder_line (bUseAscii g) width prevLine arr i"
  let ?sub = "\<lambda>i. descend (strPath @ [0x5C] @ cFileName (arr ! i)) (uint_add4 width) (?line i)"
  define below where "below = map (\<lambda>i. projr (?sub i)) [0..<length arr]"
  have below: "?sub i = Inr (below ! i)" if "i < length arr" for i
    using sub[OF that] that by (auto simp: below_def)
  have entry: "DrawTree_entry descend g strPath arr width prevLine True has k
                 = Inr (?line k # below ! k)" if "k < length arr" for k
  proof -
    from arr that have name: "length (cFileName (arr ! k)) < MAX_PATH"
      by (simp add: list_all_length)
    then have "length (connector (bUseAscii g) True has (length arr - 1 \<noteq> k)
                         (cFileName (arr ! k))) = 4 + length (cFileName (arr ! k))"
      by (simp add: connector_folder)
    with name fits w(2) up have
      "uint_pred width + length (connector (bUseAscii g) True has (length arr - 1 \<noteq> k)
                         (cFileName (arr ! k))) < STR_MAX"
      by (simp add: MAX_PATH_def STR_MAX_def)
    moreover from w(3) up have "uint_pred width \<le> length prevLine + 1" by simp
    ultimately have "consoleOut_of g arr width prevLine True has k
           = Inr (indentation (bUseAscii g) width prevLine
                  @ connector (bUseAscii g) True has (length arr - 1 \<noteq> k)
                      (cFileName (arr ! k)))"
      by (intro consoleOut_of_returns)
    moreover from that have "(length arr - 1 \<noteq> k) = (k < length arr - 1)" by auto
    ultimately have line: "consoleOut_of g arr width prevLine True has k = Inr (?line k)"
      using name by (simp add: connector_folder folder_line_def)
    from name fits have "child_path strPath (cFileName (arr ! k))
                           = Inr (strPath @ [0x5C] @ cFileName (arr ! k))"
      by (simp add: child_path_Inr MAX_PATH_def STR_MAX_def)
    with line below[OF that] show ?thesis
      by (simp add: DrawTree_entry_def)
  qed
  have "DrawTree_loop descend g strPath arr width prevLine True has 0
          = Inr (concat (map (\<lambda>k. ?line k # below ! k) [0..<length arr]))"
    by (rule DrawTree_loop_returns) (simp add: entry)
  with has have "DrawTree_body descend sys g strPath arr width prevLine True
             = Inr (concat (map (\<lambda>i. ?line i # below ! i) [0..<length arr]))"
    by (simp add: DrawTree_body_def)
  moreover have "length below = length arr" by (simp add: below_def)
  ultimately show ?thesis using below by blast
qed

lemma folder_line_length:
  "length (folder_line ascii width prevLine arr i)
     = uint_pred width + 4 + length (cFileName (arr ! i))"
  by (simp add: folder_line_def length_indentation)

lemma GetDirectoryStructure_returns:
  assumes names: "\<And>pattern. list_all (\<lambda>d. length (cFileName d) < MAX_PATH) (FindFiles sys pattern)"
    and long: "\<And>pattern. length pattern < MAX_PATH \<or> FindFiles sys pattern = []"
  shows "0 < depth \<Longrightarrow> MAX_PATH < depth + length strPath \<Longrightarrow> length strPath + 4 < STR_MAX \<Longrightarrow>
         0 < width \<Longrightarrow> width \<le> 4 * length strPath + 1 \<Longrightarrow> width - 1 \<le> length prevLine \<Longrightarrow>
         \<exists>out. GetDirectoryStructure depth sys g strPath width prevLine = Inr out"
proof (induction depth arbitrary: strPath width prevLine)
  case 0
  then show ?case by simp
next
  case (Suc depth)
  let ?found = "FindFiles sys (strPath @ [0x5C, 0x2A, 0x2E, 0x2A])"
  let ?files = "filter (\<lambda>d. \<not> is_directory d) ?found"
  let ?arrFile = "if ?files \<noteq> [] then ?files @ [spoof] else []"
  let ?folders = "filter (\<lambda>d. is_directory d \<and> \<not> is_dot_or_dotdot (cFileName d)) ?found"
  show ?case
  proof (cases "?found = []")
    case True
    with Suc.prems(3) show ?thesis
      by (simp only: GetDirectoryStructure_unfold if_True) simp
  next
    case False
    with long[of "strPath @ [0x5C, 0x2A, 0x2E, 0x2A]"] have fits: "length strPath + 4 < MAX_PATH"
      by auto
    from names[of "strPath @ [0x5C, 0x2A, 0x2E, 0x2A]"] have
      fnames: "list_all (\<lambda>d. length (cFileName d) < MAX_PATH) ?arrFile" and
      dnames: "list_all (\<lambda>d. length (cFileName d) < MAX_PATH) ?folders"
      by (auto simp: list_all_iff spoof_def MAX_PATH_def)
    from DrawTree_files_returns[OF fits Suc.prems(4-6) fnames, of sys depth g] obtain filesOut
      where f: "DrawTree depth sys g strPath ?arrFile width prevLine False = Inr filesOut"
      by blast
    have sub: "\<exists>b. GetDirectoryStructure depth sys g (strPath @ [0x5C] @ cFileName (?folders ! i))
                   (uint_add4 width) (folder_line (bUseAscii g) width prevLine ?folders i) = Inr b"
      if "i < length ?folders" for i
    proof (rule Suc.IH)
      from dnames that have name: "length (cFileName (?folders ! i)) < MAX_PATH"
        by (simp add: list_all_length)
      from fits Suc.prems(2) show "0 < depth" by (simp add: MAX_PATH_def)
      from Suc.prems(2) show "MAX_PATH < depth + length (strPath @ [0x5C] @ cFileName (?folders ! i))"
        by simp
      from fits name show "length (strPath @ [0x5C] @ cFileName (?folders ! i)) + 4 < STR_MAX"
        by (simp add: MAX_PATH_def STR_MAX_def)
      from fits Suc.prems(5) have add: "uint_add4 width = width + 4"
        by (simp add: uint_add4_def MAX_PATH_def)
      then show "0 < uint_add4 width" by simp
      from add Suc.prems(5)
      show "uint_add4 width \<le> 4 * length (strPath @ [0x5C] @ cFileName (?folders ! i)) + 1"
        by simp
      from add Suc.prems(4)
      show "uint_add4 width - 1 \<le> length (folder_line (bUseAscii g) width prevLine ?folders i)"
        by (simp add: folder_line_length uint_pred_def)
    qed
    from DrawTree_folders_returns[where descend = "GetDirectoryStructure depth sys g" and g = g
           and sys = sys, OF fits Suc.prems(4-6) dnames sub] obtain foldersOut
      where d: "DrawTree depth sys g strPath ?folders width prevLine True = Inr foldersOut"
      by (auto simp: DrawTree_def)
    from False Suc.prems(3) f d show ?thesis
      by (simp only: GetDirectoryStructure_unfold if_True if_False and_then_Inr)
         (cases "bShowFiles g"; simp)
  qed
qed

lemma called_bounds:
  assumes "called sys g root strPath width prevLine"
  shows "width \<le> 4 * length strPath + 1"
  using assms
proof (induction rule: called.induct)
  case from_wmain
  show ?case by simp
next
  case (from_DrawTree strPath width prevLine found arrFolder arrFile has i consoleOut str)
  from from_DrawTree.IH have "width \<le> 4 * STR_MAX + 1"
    using from_DrawTree.hyps(2) by simp
  then have "uint_add4 width = width + 4"
    by (simp add: uint_add4_def STR_MAX_def)
  moreover from from_DrawTree.hyps(9) have "length str = length strPath + 1 + length (cFileName (arrFolder ! i))"
    by (simp add: child_path_Inr)
  ultimately show ?case using from_DrawTree.IH by simp
qed

lemma GetDirectoryStructure_failed_search:
  assumes "length strPath + 4 < STR_MAX"
    and "FindFiles sys (strPath @ [0x5C, 0x2A, 0x2E, 0x2A]) = []"
  shows "GetDirectoryStructure (Suc depth) sys g strPath width prevLine = Inr []"
  using assms by (simp only: GetDirectoryStructure_unfold if_True) simp

lemma DrawTree_folders_closed:
  assumes names: "\<And>pattern. list_all (\<lambda>d. length (cFileName d) < MAX_PATH) (FindFiles sys pattern)"
    and long: "\<And>pattern. length pattern < MAX_PATH \<or> FindFiles sys pattern = []"
    and fits: "length strPath + 4 < MAX_PATH"
    and w: "0 < width" "width \<le> 4 * length strPath + 1" "width - 1 \<le> length prevLine"
    and arr: "list_all (\<lambda>d. length (cFileName d) < MAX_PATH) arr"
    and fuel: "MAX_PATH \<le> depth + length strPath"
  shows "\<exists>below. length below = length arr \<and>
           DrawTree depth sys g strPath arr width prevLine True
             = Inr (concat (map (\<lambda>i. folder_line (bUseAscii g) width prevLine arr i # below ! i)
                      [0..<length arr])) \<and>
           (\<forall>i < length arr.
              GetDirectoryStructure depth sys g (strPath @ [0x5C] @ cFileName (arr ! i))
                (uint_add4 width) (folder_line (bUseAscii g) width prevLine arr i)
              = Inr (below ! i))"
proof -
  have sub: "\<exists>b. GetDirectoryStructure depth sys g (strPath @ [0x5C] @ cFileName (arr ! i))
                   (uint_add4 width) (folder_line (bUseAscii g) width prevLine arr i) = Inr b"
    if "i < length arr" for i
  proof (rule GetDirectoryStructure_returns[OF names long])
    from arr that have name: "length (cFileName (arr ! i)) < MAX_PATH"
      by (simp add: list_all_length)
    from fits fuel show "0 < depth" by (simp add: MAX_PATH_def)
    from fuel show "MAX_PATH < depth + length (strPath @ [0x5C] @ cFileName (arr ! i))"
      by simp
    from fits name show "length (strPath @ [0x5C] @ cFileName (arr ! i)) + 4 < STR_MAX"
      by (simp add: MAX_PATH_def STR_MAX_def)
    from fits w(2) have add: "uint_add4 width = width + 4"
      by (simp add: uint_add4_def MAX_PATH_def)
    then show "0 < uint_add4 width" by simp
    from add w(2)
    show "uint_add4 width \<le> 4 * length (strPath @ [0x5C] @ cFileName (arr ! i)) + 1"
      by simp
    from add w(1)
    show "uint_add4 width - 1 \<le> length (folder_line (bUseAscii g) width prevLine arr i)"
      by (simp add: folder_line_length uint_pred_def)
  qed
  from DrawTree_folders_returns[where descend = "GetDirectoryStructure depth sys g" and g = g
         and sys = sys, OF fits w arr sub]
  show ?thesis by (simp only: DrawTree_def)
qed

lemma GetDirectoryStructure_level:
  assumes names: "\<And>pattern. list_all (\<lambda>d. length (cFileName d) < MAX_PATH) (FindFiles sys pattern)"
    and long: "\<And>pattern. length pattern < MAX_PATH \<or> FindFiles sys pattern = []"
    and found: "FindFiles sys (strPath @ [0x5C, 0x2A, 0x2E, 0x2A]) = found" "found \<noteq> []"
    and w: "0 < width" "width \<le> 4 * length strPath + 1" "width - 1 \<le> length prevLine"
    and fuel: "MAX_PATH \<le> depth + length strPath"
    and files: "files = filter (\<lambda>d. \<not> is_directory d) found"
    and folders: "folders = filter (\<lambda>d. is_directory d \<and> \<not> is_dot_or_dotdot (cFileName d)) found"
  shows "\<exists>has below.
           HasSubFolder sys strPath = Inr has \<and> length below = length folders \<and>
           GetDirectoryStructure (Suc depth) sys g strPath width prevLine
             = Inr ((if bShowFiles g then
                       map (\<lambda>d. file_line (bUseAscii g) width prevLine has (cFileName d)) files
                       @ (if files = [] then []
                          else [file_line (bUseAscii g) width prevLine has [0x20]])
                     else [])
                    @ concat (map (\<lambda>i. folder_line (bUseAscii g) width prevLine folders i
                                        # below ! i) [0..<length folders])) \<and>
           (\<forall>i < length folders.
              GetDirectoryStructure depth sys g (strPath @ [0x5C] @ cFileName (folders ! i))
                (uint_add4 width) (folder_line (bUseAscii g) width prevLine folders i)
              = Inr (below ! i))"
proof -
  let ?arrFile = "if files \<noteq> [] then files @ [spoof] else []"
  from long[of "strPath @ [0x5C, 0x2A, 0x2E, 0x2A]"] found
  have fits: "length strPath + 4 < MAX_PATH" by auto
  then have fits': "length strPath + 4 < STR_MAX" by (simp add: MAX_PATH_def STR_MAX_def)
  from names[of "strPath @ [0x5C, 0x2A, 0x2E, 0x2A]"] found(1) have
    fnames: "list_all (\<lambda>d. length (cFileName d) < MAX_PATH) ?arrFile" and
    dnames: "list_all (\<lambda>d. length (cFileName d) < MAX_PATH) folders"
    by (auto simp: files folders list_all_iff spoof_def MAX_PATH_def)
  from DrawTree_files_returns[OF fits w fnames, of sys depth g] obtain has where
    has: "HasSubFolder sys strPath = Inr has" and
    f: "DrawTree depth sys g strPath ?arrFile width prevLine False
          = Inr (map (\<lambda>d. file_line (bUseAscii g) width prevLine has (cFileName d)) ?arrFile)"
    by blast
  from DrawTree_folders_closed[OF names long fits w dnames fuel, of g] obtain below where
    len: "length below = length folders" and
    d: "DrawTree depth sys g strPath folders width prevLine True
          = Inr (concat (map (\<lambda>i. folder_line (bUseAscii g) width prevLine folders i # below ! i)
                   [0..<length folders]))" and
    each: "\<forall>i < length folders.
              GetDirectoryStructure depth sys g (strPath @ [0x5C] @ cFileName (folders ! i))
                (uint_add4 width) (folder_line (bUseAscii g) width prevLine folders i)
              = Inr (below ! i)"
    by blast
  have "GetDirectoryStructure (Suc depth) sys g strPath width prevLine
          = and_then (if bShowFiles g
                      then DrawTree depth sys g strPath ?arrFile width prevLine False else Inr [])
              (DrawTree depth sys g strPath folders width prevLine True)"
    using fits' found by (simp only: GetDirectoryStructure_unfold files folders if_True if_False)
  also have "\<dots> = Inr ((if bShowFiles g then
                       map (\<lambda>d. file_line (bUseAscii g) width prevLine has (cFileName d)) files
                       @ (if files = [] then []
                          else [file_line (bUseAscii g) width prevLine has [0x20]])
                     else [])
                    @ concat (map (\<lambda>i. folder_line (bUseAscii g) width prevLine folders i
                                        # below ! i) [0..<length folders]))"
    by (simp only: f d) (simp add: and_then_def spoof_def)
  finally show ?thesis using has len each by blast
qed

lemma DrawTree_entry_more:
  assumes "\<And>str w line b. descend str w line = Inr b \<Longrightarrow> descend' str w line = Inr b"
    and "DrawTree_entry descend g strPath arr width prevLine df has i = Inr chunk"
  shows "DrawTree_entry descend' g strPath arr width prevLine df has i = Inr chunk"
  using assms(2) by (auto simp: DrawTree_entry_def dest!: assms(1) split: sum.splits if_splits)

lemma DrawTree_loop_more:
  assumes more: "\<And>str w line b. descend str w line = Inr b \<Longrightarrow> descend' str w line = Inr b"
  shows "DrawTree_loop descend g strPath arr width prevLine df has i = Inr out \<Longrightarrow>
         DrawTree_loop descend' g strPath arr width prevLine df has i = Inr out"
proof (induction "length arr - i" arbitrary: i out)
  case 0
  then show ?case by (simp add: DrawTree_loop.simps)
next
  case (Suc n)
  then have n: "n = length arr - Suc i" and i: "i < length arr" by simp_all
  from Suc.prems i obtain a b where
    a: "DrawTree_entry descend g strPath arr width prevLine df has i = Inr a" and
    b: "DrawTree_loop descend g strPath arr width prevLine df has (Suc i) = Inr b" and
    out: "out = a @ b"
    by (subst (asm) DrawTree_loop.simps) (auto simp: and_then_Inr)
  from DrawTree_entry_more[where descend = descend and descend' = descend', OF more a]
  have a': "DrawTree_entry descend' g strPath arr width prevLine df has i = Inr a" by simp
  from Suc.hyps(1)[OF n b] a' out i show ?case
    by (subst DrawTree_loop.simps) (simp add: and_then_def)
qed

lemma DrawTree_body_more:
  assumes more: "\<And>str w line b. descend str w line = Inr b \<Longrightarrow> descend' str w line = Inr b"
    and "DrawTree_body descend sys g strPath arr width prevLine df = Inr out"
  shows "DrawTree_body descend' sys g strPath arr width prevLine df = Inr out"
proof -
  from assms(2) obtain has where has: "HasSubFolder sys strPath = Inr has" and
    loop: "DrawTree_loop descend g strPath arr width prevLine df has 0 = Inr out"
    by (auto simp: DrawTree_body_def split: sum.splits)
  from DrawTree_loop_more[where descend = descend and descend' = descend', OF more loop] has
  show ?thesis by (simp add: DrawTree_body_def)
qed

lemma GetDirectoryStructure_more_depth:
  "GetDirectoryStructure depth sys g strPath width prevLine = Inr out \<Longrightarrow> depth \<le> depth' \<Longrightarrow>
   GetDirectoryStructure depth' sys g strPath width prevLine = Inr out"
proof (induction depth arbitrary: depth' strPath width prevLine out)
  case 0
  then show ?case by simp
next
  case (Suc depth)
  from Suc.prems(2) obtain e where e: "depth' = Suc e" "depth \<le> e"
    by (cases depth') simp_all
  have step: "GetDirectoryStructure e sys g str w line = Inr b"
    if "GetDirectoryStructure depth sys g str w line = Inr b" for str w line b
    using Suc.IH[OF that e(2)] .
  have dt: "DrawTree e sys g strPath arr width prevLine df = Inr lines"
    if "DrawTree depth sys g strPath arr width prevLine df = Inr lines" for arr df lines
    using that unfolding DrawTree_def
    by (rule DrawTree_body_more[where descend = "GetDirectoryStructure depth sys g"
          and descend' = "GetDirectoryStructure e sys g", rotated]) (rule step)
  from Suc.prems(1) show ?case
    unfolding e(1) GetDirectoryStructure_unfold
    by (auto simp: and_then_Inr dest!: dt split: if_splits)
qed

lemma DrawTree_more_depth:
  assumes "DrawTree depth sys g strPath arr width prevLine df = Inr out" and "depth \<le> depth'"
  shows "DrawTree depth' sys g strPath arr width prevLine df = Inr out"
  using assms(1) unfolding DrawTree_def
  by (rule DrawTree_body_more[where descend = "GetDirectoryStructure depth sys g"
        and descend' = "GetDirectoryStructure depth' sys g", rotated])
     (rule GetDirectoryStructure_more_depth[OF _ assms(2)])

lemmas locked_defs = locked_os_def locked_find_def folder_def L_def

lemma example_names:
  "\<forall>pattern. list_all (\<lambda>d. length (cFileName d) < MAX_PATH) (FindFiles example_os pattern)"
  by (simp add: example_defs MAX_PATH_def)

lemma example_long:
  "\<forall>pattern. length pattern < MAX_PATH \<or> FindFiles example_os pattern = []"
  by (auto simp: example_defs MAX_PATH_def)

lemma locked_names:
  "\<forall>pattern. list_all (\<lambda>d. length (cFileName d) < MAX_PATH) (FindFiles locked_os pattern)"
  by (simp add: locked_defs MAX_PATH_def)

lemma locked_long:
  "\<forall>pattern. length pattern < MAX_PATH \<or> FindFiles locked_os pattern = []"
  by (auto simp: locked_defs MAX_PATH_def)

section \<open>The renderer\<close>

text \<open>
  Claim C1.  A list of siblings drawn with folder kind, in a call of a run on a directory
  that was opened, with the depth of recursion that is enough for paths shorter than
  \<^verbatim>\<open>MAX_PATH\<close>: \<^verbatim>\<open>DrawTree\<close> returns, and what it prints is, in the order of the list, the
  line of each entry followed by what \<^verbatim>\<open>GetDirectoryStructure\<close> prints for that folder.
  The line of every entry but the last is the indentation, then \<^verbatim>\<open>+---\<close> in ASCII mode and
  the branch glyph with three horizontal bars otherwise, then the name; the line of the
  last entry has \<^verbatim>\<open>\---\<close>, or the corner glyph with three bars, in that place
  (\<open>folder_line\<close>).  The file system is as above: names are \<^verbatim>\<open>cFileName\<close> strings, shorter
  than \<^verbatim>\<open>MAX_PATH\<close>, and a search with a pattern of \<^verbatim>\<open>MAX_PATH\<close> or more characters fails.
\<close>

theorem folder_entries_drawn_with_branch_connectors:
  assumes names: "\<forall>pattern. list_all (\<lambda>d. length (cFileName d) < MAX_PATH) (FindFiles sys pattern)"
    and long: "\<forall>pattern. length pattern < MAX_PATH \<or> FindFiles sys pattern = []"
    and call: "called sys g root strPath width prevLine"
    and opened: "FindFiles sys (strPath @ [0x5C, 0x2A, 0x2E, 0x2A]) \<noteq> []"
    and arr: "list_all (\<lambda>d. length (cFileName d) < MAX_PATH) arrFolder"
    and fuel: "MAX_PATH \<le> depth + length strPath"
  shows "\<exists>below.
           length below = length arrFolder \<and>
           DrawTree depth sys g strPath arrFolder width prevLine True
             = Inr (concat (map (\<lambda>i. folder_line (bUseAscii g) width prevLine arrFolder i
                                       # below ! i) [0..<length arrFolder])) \<and>
           (\<forall>i < length arrFolder.
              GetDirectoryStructure depth sys g (strPath @ [0x5C] @ cFileName (arrFolder ! i))
                (uint_add4 width) (folder_line (bUseAscii g) width prevLine arrFolder i)
                = Inr (below ! i))"
proof -
  from long[rule_format, of "strPath @ [0x5C, 0x2A, 0x2E, 0x2A]"] opened
  have fits: "length strPath + 4 < MAX_PATH" by simp
  from called_invariant[OF call] have w: "0 < width" "width - 1 \<le> length prevLine"
    by simp_all
  from names long show ?thesis
    by (intro DrawTree_folders_closed[OF _ _ fits w(1) called_bounds[OF call] w(2) arr fuel])
       simp_all
qed


theorem folder_entries_drawn_with_branch_connectors_witness:
  "(\<forall>pattern. list_all (\<lambda>d. length (cFileName d) < MAX_PATH) (FindFiles example_os pattern))
   \<and> (\<forall>pattern. length pattern < MAX_PATH \<or> FindFiles example_os pattern = [])
   \<and> called example_os \<lparr>bShowFiles = False, bUseAscii = False, bSetPath = False\<rparr> (L ''t'')
        (L ''t'') 1 (replicate 10 0x20)
   \<and> FindFiles example_os (L ''t'' @ [0x5C, 0x2A, 0x2E, 0x2A]) \<noteq> []
   \<and> list_all (\<lambda>d. length (cFileName d) < MAX_PATH) [folder ''a'', folder ''b'']
   \<and> MAX_PATH \<le> 260 + length (L ''t'')
   \<and> (\<exists>below.
         length below = length [folder ''a'', folder ''b''] \<and>
         DrawTree 260 example_os \<lparr>bShowFiles = False, bUseAscii = False, bSetPath = False\<rparr>
           (L ''t'') [folder ''a'', folder ''b''] 1 (replicate 10 0x20) True
         = Inr (concat (map (\<lambda>i. folder_line
                              (bUseAscii \<lparr>bShowFiles = False, bUseAscii = False, bSetPath = False\<rparr>)
                              1 (replicate 10 0x20) [folder ''a'', folder ''b''] i
                            # below ! i) [0..<length [folder ''a'', folder ''b'']])) \<and>
         (\<forall>i < length [folder ''a'', folder ''b''].
            GetDirectoryStructure 260 example_os
              \<lparr>bShowFiles = False, bUseAscii = False, bSetPath = False\<rparr>
              (L ''t'' @ [0x5C] @ cFileName ([folder ''a'', folder ''b''] ! i)) (uint_add4 1)
              (folder_line
                 (bUseAscii \<lparr>bShowFiles = False, bUseAscii = False, bSetPath = False\<rparr>)
                 1 (replicate 10 0x20) [folder ''a'', folder ''b''] i)
            = Inr (below ! i)))
   \<and> DrawTree 260 example_os \<lparr>bShowFiles = False, bUseAscii = False, bSetPath = False\<rparr>
        (L ''t'') [folder ''a'', folder ''b''] 1 (replicate 10 0x20) True
      = Inr [[0x251C, 0x2500, 0x2500, 0x2500, 0x61],
             [0x2502, 0x20, 0x20, 0x20, 0x2514, 0x2500, 0x2500, 0x2500, 0x78],
             [0x2514, 0x2500, 0x2500, 0x2500, 0x62]]"
  (is "?names \<and> ?long \<and> ?call \<and> ?opened \<and> ?arr \<and> ?fuel \<and> ?drawn \<and> ?run")
proof (intro conjI)
  show names: ?names
    by (rule example_names)
  show long: ?long
    by (rule example_long)
  show call: ?call
    by (rule from_wmain)
  show opened: ?opened
    by (simp add: example_defs)
  show arr: ?arr
    by (simp add: folder_def L_def MAX_PATH_def)
  show fuel: ?fuel
    by (simp add: MAX_PATH_def)
  show ?drawn
    by (rule folder_entries_drawn_with_branch_connectors[OF names long call opened arr fuel])
  have "DrawTree (Suc (Suc 0)) example_os
          \<lparr>bShowFiles = False, bUseAscii = False, bSetPath = False\<rparr>
          (L ''t'') [folder ''a'', folder ''b''] 1 (replicate 10 0x20) True
        = Inr [[0x251C, 0x2500, 0x2500, 0x2500, 0x61],
               [0x2502, 0x20, 0x20, 0x20, 0x2514, 0x2500, 0x2500, 0x2500, 0x78],
               [0x2514, 0x2500, 0x2500, 0x2500, 0x62]]"
    by (simp add: example_defs run_defs)
  then show ?run
    by (rule DrawTree_more_depth) simp
qed

text \<open>
  Claim C3.  A list drawn with file kind, last entry or not: every line is the indentation,
  then the vertical bar (\<^verbatim>\<open>|\<close> in ASCII mode) and three blanks when \<^verbatim>\<open>HasSubFolder\<close> returns
  true for the directory given to \<^verbatim>\<open>DrawTree\<close>, five blanks when it returns false, then the
  name (\<open>file_line\<close>).  Nothing else is printed.  The names are those of \<^verbatim>\<open>cFileName\<close>
  arrays, shorter than \<^verbatim>\<open>MAX_PATH\<close>.
\<close>

theorem file_entries_drawn_by_probe:
  assumes "DrawTree depth sys g strPath arrFile width prevLine False = Inr out"
    and "list_all (\<lambda>d. length (cFileName d) < MAX_PATH) arrFile"
  shows "\<exists>has. HasSubFolder sys strPath = Inr has \<and>
           out = map (\<lambda>d. file_line (bUseAscii g) width prevLine has (cFileName d)) arrFile"
  using assms by (rule DrawTree_file_lines)

theorem file_entries_drawn_by_probe_witness:
  "DrawTree 0 example_os \<lparr>bShowFiles = True, bUseAscii = True, bSetPath = False\<rparr>
     (L ''t'' @ [0x5C] @ L ''b'') [plain_file ''f.txt'', hidden_system_file ''h''] 5
     [0x5C, 0x2D, 0x2D, 0x2D, 0x62] False =
   Inr [[0x20, 0x20, 0x20, 0x20, 0x20, 0x20, 0x20, 0x20, 0x20, 0x66, 0x2E, 0x74, 0x78, 0x74],
        [0x20, 0x20, 0x20, 0x20, 0x20, 0x20, 0x20, 0x20, 0x20, 0x68]]
   \<and> list_all (\<lambda>d. length (cFileName d) < MAX_PATH) [plain_file ''f.txt'', hidden_system_file ''h'']
   \<and> (\<exists>has. HasSubFolder example_os (L ''t'' @ [0x5C] @ L ''b'') = Inr has \<and>
         [[0x20, 0x20, 0x20, 0x20, 0x20, 0x20, 0x20, 0x20, 0x20, 0x66, 0x2E, 0x74, 0x78, 0x74],
          [0x20, 0x20, 0x20, 0x20, 0x20, 0x20, 0x20, 0x20, 0x20, 0x68]]
         = map (\<lambda>d. file_line
                       (bUseAscii \<lparr>bShowFiles = True, bUseAscii = True, bSetPath = False\<rparr>)
                       5 [0x5C, 0x2D, 0x2D, 0x2D, 0x62] has (cFileName d))
             [plain_file ''f.txt'', hidden_system_file ''h''])"
  (is "?run \<and> ?names \<and> ?drawn")
proof (intro conjI)
  show run: ?run
    by (simp add: example_defs run_defs)
  show names: ?names
    by (simp add: plain_file_def hidden_system_file_def L_def MAX_PATH_def)
  show ?drawn
    by (rule file_entries_drawn_by_probe[OF run names])
qed

section \<open>The order of a directory level\<close>

text \<open>
  Claim C4.  With \<^verbatim>\<open>bShowFiles\<close> set, a call of a run on a directory that can be opened,
  with enough depth of recursion, returns and prints: the lines of the files in the order
  of the enumeration; then, exactly when there is a file, one line whose name is the
  single blank of the appended entry; then the line of each sub folder, in the order of
  the enumeration, each followed by the listing of that folder.  This holds in ASCII mode
  and without it.
\<close>

theorem files_listed_before_folders:
  assumes names: "\<forall>pattern. list_all (\<lambda>d. length (cFileName d) < MAX_PATH) (FindFiles sys pattern)"
    and long: "\<forall>pattern. length pattern < MAX_PATH \<or> FindFiles sys pattern = []"
    and call: "called sys g root strPath width prevLine"
    and shown: "bShowFiles g"
    and found: "FindFiles sys (strPath @ [0x5C, 0x2A, 0x2E, 0x2A]) = found"
    and opened: "found \<noteq> []"
    and fuel: "MAX_PATH \<le> depth + length strPath"
  shows "\<exists>has below.
           HasSubFolder sys strPath = Inr has \<and>
           length below
             = length (filter (\<lambda>d. is_directory d \<and> \<not> is_dot_or_dotdot (cFileName d)) found) \<and>
           GetDirectoryStructure (Suc depth) sys g strPath width prevLine
             = Inr (map (\<lambda>d. file_line (bUseAscii g) width prevLine has (cFileName d))
                      (filter (\<lambda>d. \<not> is_directory d) found)
                    @ (if filter (\<lambda>d. \<not> is_directory d) found = [] then []
                       else [file_line (bUseAscii g) width prevLine has [0x20]])
                    @ concat (map (\<lambda>i. folder_line (bUseAscii g) width prevLine
                                          (filter (\<lambda>d. is_directory d
                                             \<and> \<not> is_dot_or_dotdot (cFileName d)) found) i
                                        # below ! i)
                                [0..<length (filter (\<lambda>d. is_directory d
                                               \<and> \<not> is_dot_or_dotdot (cFileName d)) found)])) \<and>
           (\<forall>i < length (filter (\<lambda>d. is_directory d \<and> \<not> is_dot_or_dotdot (cFileName d)) found).
              GetDirectoryStructure depth sys g
                (strPath @ [0x5C] @ cFileName
                   (filter (\<lambda>d. is_directory d \<and> \<not> is_dot_or_dotdot (cFileName d)) found ! i))
                (uint_add4 width)
                (folder_line (bUseAscii g) width prevLine
                   (filter (\<lambda>d. is_directory d \<and> \<not> is_dot_or_dotdot (cFileName d)) found) i)
              = Inr (below ! i))"
proof -
  from called_invariant[OF call] have w: "0 < width" "width - 1 \<le> length prevLine"
    by simp_all
  have n: "list_all (\<lambda>d. length (cFileName d) < MAX_PATH) (FindFiles sys pattern)" for pattern
    using names by simp
  have l: "length pattern < MAX_PATH \<or> FindFiles sys pattern = []" for pattern
    using long by simp
  from GetDirectoryStructure_level[of sys strPath found width prevLine depth _ _ g,
         OF n l found opened w(1) called_bounds[OF call] w(2) fuel refl refl] shown
  show ?thesis by simp
qed

theorem files_listed_before_folders_witness:
  "(\<forall>pattern. list_all (\<lambda>d. length (cFileName d) < MAX_PATH) (FindFiles example_os pattern))
   \<and> (\<forall>pattern. length pattern < MAX_PATH \<or> FindFiles example_os pattern = [])
   \<and> called example_os \<lparr>bShowFiles = True, bUseAscii = False, bSetPath = False\<rparr> (L ''t'')
        (L ''t'') 1 (replicate 10 0x20)
   \<and> bShowFiles \<lparr>bShowFiles = True, bUseAscii = False, bSetPath = False\<rparr>
   \<and> FindFiles example_os (L ''t'' @ [0x5C, 0x2A, 0x2E, 0x2A]) =
       [folder ''.'', folder ''..'', folder ''a'', plain_file ''f.txt'',
        hidden_system_file ''h'', folder ''b'']
   \<and> [folder ''.'', folder ''..'', folder ''a'', plain_file ''f.txt'',
        hidden_system_file ''h'', folder ''b''] \<noteq> []
   \<and> MAX_PATH \<le> 260 + length (L ''t'')
   \<and> (\<exists>has below.
         HasSubFolder example_os (L ''t'') = Inr has \<and>
         length below
           = length (filter (\<lambda>d. is_directory d \<and> \<not> is_dot_or_dotdot (cFileName d))
               [folder ''.'', folder ''..'', folder ''a'', plain_file ''f.txt'',
                hidden_system_file ''h'', folder ''b'']) \<and>
         GetDirectoryStructure (Suc 260) example_os
           \<lparr>bShowFiles = True, bUseAscii = False, bSetPath = False\<rparr> (L ''t'') 1
           (replicate 10 0x20)
         = Inr (map (\<lambda>d. file_line
                       (bUseAscii \<lparr>bShowFiles = True, bUseAscii = False, bSetPath = False\<rparr>)
                       1 (replicate 10 0x20) has (cFileName d))
                  (filter (\<lambda>d. \<not> is_directory d)
                     [folder ''.'', folder ''..'', folder ''a'', plain_file ''f.txt'',
                      hidden_system_file ''h'', folder ''b''])
                @ (if filter (\<lambda>d. \<not> is_directory d)
                        [folder ''.'', folder ''..'', folder ''a'', plain_file ''f.txt'',
                         hidden_system_file ''h'', folder ''b''] = [] then []
                   else [file_line
                           (bUseAscii \<lparr>bShowFiles = True, bUseAscii = False, bSetPath = False\<rparr>)
                           1 (replicate 10 0x20) has [0x20]])
                @ concat (map (\<lambda>i. folder_line
                                 (bUseAscii \<lparr>bShowFiles = True, bUseAscii = False, bSetPath = False\<rparr>)
                                 1 (replicate 10 0x20)
                                 (filter (\<lambda>d. is_directory d \<and> \<not> is_dot_or_dotdot (cFileName d))
                                    [folder ''.'', folder ''..'', folder ''a'', plain_file ''f.txt'',
                                     hidden_system_file ''h'', folder ''b'']) i
                               # below ! i)
                          [0..<length (filter (\<lambda>d. is_directory d
                                         \<and> \<not> is_dot_or_dotdot (cFileName d))
                                 [folder ''.'', folder ''..'', folder ''a'', plain_file ''f.txt'',
                                  hidden_system_file ''h'', folder ''b''])])) \<and>
         (\<forall>i < length (filter (\<lambda>d. is_directory d \<and> \<not> is_dot_or_dotdot (cFileName d))
                  [folder ''.'', folder ''..'', folder ''a'', plain_file ''f.txt'',
                   hidden_system_file ''h'', folder ''b'']).
            GetDirectoryStructure 260 example_os
              \<lparr>bShowFiles = True, bUseAscii = False, bSetPath = False\<rparr>
              (L ''t'' @ [0x5C] @ cFileName
                 (filter (\<lambda>d. is_directory d \<and> \<not> is_dot_or_dotdot (cFileName d))
                    [folder ''.'', folder ''..'', folder ''a'', plain_file ''f.txt'',
                     hidden_system_file ''h'', folder ''b''] ! i))
              (uint_add4 1)
              (folder_line
                 (bUseAscii \<lparr>bShowFiles = True, bUseAscii = False, bSetPath = False\<rparr>)
                 1 (replicate 10 0x20)
                 (filter (\<lambda>d. is_directory d \<and> \<not> is_dot_or_dotdot (cFileName d))
                    [folder ''.'', folder ''..'', folder ''a'', plain_file ''f.txt'',
                     hidden_system_file ''h'', folder ''b'']) i)
            = Inr (below ! i)))
   \<and> GetDirectoryStructure (Suc 260) example_os
        \<lparr>bShowFiles = True, bUseAscii = False, bSetPath = False\<rparr> (L ''t'') 1
        (replicate 10 0x20)
      = Inr [[0x2502, 0x20, 0x20, 0x20, 0x66, 0x2E, 0x74, 0x78, 0x74],
             [0x2502, 0x20, 0x20, 0x20, 0x68],
             [0x2502, 0x20, 0x20, 0x20, 0x20],
             [0x251C, 0x2500, 0x2500, 0x2500, 0x61],
             [0x2502, 0x20, 0x20, 0x20, 0x2514, 0x2500, 0x2500, 0x2500, 0x78],
             [0x2514, 0x2500, 0x2500, 0x2500, 0x62]]"
  (is "?names \<and> ?long \<and> ?call \<and> ?shown \<and> ?found \<and> ?opened \<and> ?fuel \<and> ?order \<and> ?run")
proof (intro conjI)
  show names: ?names
    by (rule example_names)
  show long: ?long
    by (rule example_long)
  show call: ?call
    by (rule from_wmain)
  show shown: ?shown
    by simp
  show found: ?found
    by (rule example_listing)
  show opened: ?opened
    by simp
  show fuel: ?fuel
    by (simp add: MAX_PATH_def)
  show ?order
    by (rule files_listed_before_folders[OF names long call shown found opened fuel])
  have "GetDirectoryStructure (Suc (Suc (Suc 0))) example_os
          \<lparr>bShowFiles = True, bUseAscii = False, bSetPath = False\<rparr> (L ''t'') 1
          (replicate 10 0x20)
        = Inr [[0x2502, 0x20, 0x20, 0x20, 0x66, 0x2E, 0x74, 0x78, 0x74],
               [0x2502, 0x20, 0x20, 0x20, 0x68],
               [0x2502, 0x20, 0x20, 0x20, 0x20],
               [0x251C, 0x2500, 0x2500, 0x2500, 0x61],
               [0x2502, 0x20, 0x20, 0x20, 0x2514, 0x2500, 0x2500, 0x2500, 0x78],
               [0x2514, 0x2500, 0x2500, 0x2500, 0x62]]"
    by (simp add: example_defs run_defs)
  then show ?run
    by (rule GetDirectoryStructure_more_depth) simp
qed

text \<open>
  Claim C7.  The appended entry is drawn in the list of files only: it is the last line of
  that list, with the name of one blank; the list of files is drawn the same with no depth
  of recursion left, so nothing in it is descended into; and the entry is not among the
  folders, which alone are drawn with folder kind.
\<close>

theorem spacer_entry_not_descended:
  assumes "GetDirectoryStructure (Suc depth) sys g strPath width prevLine = Inr out"
    and "bShowFiles g"
    and "FindFiles sys (strPath @ [0x5C, 0x2A, 0x2E, 0x2A]) = found"
    and "filter (\<lambda>d. \<not> is_directory d) found \<noteq> []"
  shows "\<exists>has files folders.
           HasSubFolder sys strPath = Inr has \<and>
           DrawTree 0 sys g strPath (filter (\<lambda>d. \<not> is_directory d) found @ [spoof])
             width prevLine False = Inr files \<and>
           length files = length (filter (\<lambda>d. \<not> is_directory d) found) + 1 \<and>
           last files = file_line (bUseAscii g) width prevLine has [0x20] \<and>
           DrawTree depth sys g strPath
             (filter (\<lambda>d. is_directory d \<and> \<not> is_dot_or_dotdot (cFileName d)) found)
             width prevLine True = Inr folders \<and>
           spoof \<notin> set (filter (\<lambda>d. is_directory d \<and> \<not> is_dot_or_dotdot (cFileName d)) found) \<and>
           out = files @ folders"
proof -
  let ?files = "filter (\<lambda>d. \<not> is_directory d) found"
  let ?arr = "?files @ [spoof]"
  from assms(4) have ne: "found \<noteq> []" by auto
  from GetDirectoryStructure_shown_Inr[OF assms(1-3) ne] assms(4) obtain files folders where
    f: "DrawTree depth sys g strPath ?arr width prevLine False = Inr files" and
    d: "DrawTree depth sys g strPath
             (filter (\<lambda>d. is_directory d \<and> \<not> is_dot_or_dotdot (cFileName d)) found)
             width prevLine True = Inr folders" and
    out: "out = files @ folders"
    by auto
  from DrawTree_files_Inr[OF f] obtain has where
    has: "HasSubFolder sys strPath = Inr has" and len: "length files = length ?arr" and
    each: "\<forall>i < length ?arr. consoleOut_of g ?arr width prevLine False has i = Inr (files ! i)"
    by blast
  have f0: "DrawTree 0 sys g strPath ?arr width prevLine False = Inr files"
    using f DrawTree_file_kind[of 0 sys g strPath ?arr width prevLine depth] by simp
  from each have "consoleOut_of g ?arr width prevLine False has (length ?files)
                    = Inr (files ! length ?files)" by simp
  from consoleOut_file_line[OF this]
  have "files ! length ?files = file_line (bUseAscii g) width prevLine has [0x20]"
    by (simp add: spoof_def MAX_PATH_def)
  moreover from len have "last files = files ! length ?files"
    by (simp add: last_conv_nth[of files] length_0_conv[symmetric] del: length_0_conv)
  ultimately have l: "last files = file_line (bUseAscii g) width prevLine has [0x20]" by simp
  have "\<not> is_directory spoof"
    by (simp add: is_directory_def spoof_def)
  then have "spoof \<notin> set (filter (\<lambda>d. is_directory d \<and> \<not> is_dot_or_dotdot (cFileName d)) found)"
    by auto
  with has f0 len l d out show ?thesis by auto
qed

theorem spacer_entry_not_descended_witness:
  "GetDirectoryStructure (Suc (Suc (Suc 0))) example_os
     \<lparr>bShowFiles = True, bUseAscii = True, bSetPath = False\<rparr> (L ''t'') 1 (replicate 10 0x20)
   = Inr [[0x7C, 0x20, 0x20, 0x20, 0x66, 0x2E, 0x74, 0x78, 0x74],
          [0x7C, 0x20, 0x20, 0x20, 0x68],
          [0x7C, 0x20, 0x20, 0x20, 0x20],
          [0x2B, 0x2D, 0x2D, 0x2D, 0x61],
          [0x7C, 0x20, 0x20, 0x20, 0x5C, 0x2D, 0x2D, 0x2D, 0x78],
          [0x5C, 0x2D, 0x2D, 0x2D, 0x62]]
   \<and> bShowFiles \<lparr>bShowFiles = True, bUseAscii = True, bSetPath = False\<rparr>
   \<and> FindFiles example_os (L ''t'' @ [0x5C, 0x2A, 0x2E, 0x2A]) =
       [folder ''.'', folder ''..'', folder ''a'', plain_file ''f.txt'',
        hidden_system_file ''h'', folder ''b'']
   \<and> filter (\<lambda>d. \<not> is_directory d)
        [folder ''.'', folder ''..'', folder ''a'', plain_file ''f.txt'',
         hidden_system_file ''h'', folder ''b''] \<noteq> []
   \<and> (\<exists>has files folders.
         HasSubFolder example_os (L ''t'') = Inr has \<and>
         DrawTree 0 example_os \<lparr>bShowFiles = True, bUseAscii = True, bSetPath = False\<rparr> (L ''t'')
           (filter (\<lambda>d. \<not> is_directory d)
              [folder ''.'', folder ''..'', folder ''a'', plain_file ''f.txt'',
               hidden_system_file ''h'', folder ''b''] @ [spoof])
           1 (replicate 10 0x20) False = Inr files \<and>
         length files
           = length (filter (\<lambda>d. \<not> is_directory d)
               [folder ''.'', folder ''..'', folder ''a'', plain_file ''f.txt'',
                hidden_system_file ''h'', folder ''b'']) + 1 \<and>
         last files
           = file_line (bUseAscii \<lparr>bShowFiles = True, bUseAscii = True, bSetPath = False\<rparr>)
               1 (replicate 10 0x20) has [0x20] \<and>
         DrawTree (Suc (Suc 0)) example_os
           \<lparr>bShowFiles = True, bUseAscii = True, bSetPath = False\<rparr> (L ''t'')
           (filter (\<lambda>d. is_directory d \<and> \<not> is_dot_or_dotdot (cFileName d))
              [folder ''.'', folder ''..'', folder ''a'', plain_file ''f.txt'',
               hidden_system_file ''h'', folder ''b''])
           1 (replicate 10 0x20) True = Inr folders \<and>
         spoof \<notin> set (filter (\<lambda>d. is_directory d \<and> \<not> is_dot_or_dotdot (cFileName d))
              [folder ''.'', folder ''..'', folder ''a'', plain_file ''f.txt'',
               hidden_system_file ''h'', folder ''b'']) \<and>
         [[0x7C, 0x20, 0x20, 0x20, 0x66, 0x2E, 0x74, 0x78, 0x74],
          [0x7C, 0x20, 0x20, 0x20, 0x68],
          [0x7C, 0x20, 0x20, 0x20, 0x20],
          [0x2B, 0x2D, 0x2D, 0x2D, 0x61],
          [0x7C, 0x20, 0x20, 0x20, 0x5C, 0x2D, 0x2D, 0x2D, 0x78],
          [0x5C, 0x2D, 0x2D, 0x2D, 0x62]] = files @ folders)"
  (is "?run \<and> ?shown \<and> ?found \<and> ?some \<and> ?spacer")
proof (intro conjI)
  show run: ?run
    by (simp add: example_defs run_defs)
  show shown: ?shown
    by simp
  show found: ?found
    by (rule example_listing)
  show some: ?some
    by (simp add: folder_def plain_file_def hidden_system_file_def is_directory_def
          FILE_ATTRIBUTE_DIRECTORY_def)
  show ?spacer
    by (rule spacer_entry_not_descended[OF run shown found some])
qed

section \<open>Directories that cannot be opened\<close>

text \<open>
  Claim C6.  Folder \<open>i\<close> of a list of siblings cannot be opened: the search in it fails.
  Then \<^verbatim>\<open>GetDirectoryStructure\<close> returns for it before anything is collected and prints
  nothing, whatever depth of recursion is left and whatever it is given as width and
  previous line.  \<^verbatim>\<open>DrawTree\<close> returns for the whole list: the line of the folder is
  followed directly by the line of the next sibling, every line is the one that the
  position in the list, the width and the previous line of the level determine, and every
  other folder is followed by its own listing.
\<close>

theorem unreadable_folder_is_leaf:
  assumes names: "\<forall>pattern. list_all (\<lambda>d. length (cFileName d) < MAX_PATH) (FindFiles sys pattern)"
    and long: "\<forall>pattern. length pattern < MAX_PATH \<or> FindFiles sys pattern = []"
    and call: "called sys g root strPath width prevLine"
    and opened: "FindFiles sys (strPath @ [0x5C, 0x2A, 0x2E, 0x2A]) \<noteq> []"
    and arr: "list_all (\<lambda>d. length (cFileName d) < MAX_PATH) arrFolder"
    and fuel: "MAX_PATH \<le> depth + length strPath"
    and index: "i < length arrFolder"
    and closed: "FindFiles sys (strPath @ [0x5C] @ cFileName (arrFolder ! i)
                   @ [0x5C, 0x2A, 0x2E, 0x2A]) = []"
  shows "\<exists>below.
           length below = length arrFolder \<and>
           below ! i = [] \<and>
           DrawTree depth sys g strPath arrFolder width prevLine True
             = Inr (concat (map (\<lambda>k. folder_line (bUseAscii g) width prevLine arrFolder k
                                       # below ! k) [0..<length arrFolder])) \<and>
           (\<forall>k < length arrFolder.
              GetDirectoryStructure depth sys g (strPath @ [0x5C] @ cFileName (arrFolder ! k))
                (uint_add4 width) (folder_line (bUseAscii g) width prevLine arrFolder k)
                = Inr (below ! k)) \<and>
           (\<forall>enough width' prevLine'.
              GetDirectoryStructure (Suc enough) sys g
                (strPath @ [0x5C] @ cFileName (arrFolder ! i)) width' prevLine' = Inr []) \<and>
           collect (FindFiles sys (strPath @ [0x5C] @ cFileName (arrFolder ! i)
                      @ [0x5C, 0x2A, 0x2E, 0x2A])) [] [] = ([], [])"
proof -
  from long[rule_format, of "strPath @ [0x5C, 0x2A, 0x2E, 0x2A]"] opened
  have fits: "length strPath + 4 < MAX_PATH" by simp
  from arr index have "length (cFileName (arrFolder ! i)) < MAX_PATH"
    by (simp add: list_all_length)
  with fits have room: "length (strPath @ [0x5C] @ cFileName (arrFolder ! i)) + 4 < STR_MAX"
    by (simp add: MAX_PATH_def STR_MAX_def)
  from closed have closed': "FindFiles sys ((strPath @ [0x5C] @ cFileName (arrFolder ! i))
                               @ [0x5C, 0x2A, 0x2E, 0x2A]) = []"
    by simp
  have leaf: "GetDirectoryStructure (Suc enough) sys g
                (strPath @ [0x5C] @ cFileName (arrFolder ! i)) width' prevLine' = Inr []"
    for enough width' prevLine'
    by (rule GetDirectoryStructure_failed_search[OF room closed'])
  from called_invariant[OF call] have w: "0 < width" "width - 1 \<le> length prevLine"
    by simp_all
  have "\<exists>below. length below = length arrFolder \<and>
           DrawTree depth sys g strPath arrFolder width prevLine True
             = Inr (concat (map (\<lambda>k. folder_line (bUseAscii g) width prevLine arrFolder k
                                       # below ! k) [0..<length arrFolder])) \<and>
           (\<forall>k < length arrFolder.
              GetDirectoryStructure depth sys g (strPath @ [0x5C] @ cFileName (arrFolder ! k))
                (uint_add4 width) (folder_line (bUseAscii g) width prevLine arrFolder k)
                = Inr (below ! k))"
    using names long
    by (intro DrawTree_folders_closed[OF _ _ fits w(1) called_bounds[OF call] w(2) arr fuel])
       simp_all
  then obtain below where
    len: "length below = length arrFolder" and
    run: "DrawTree depth sys g strPath arrFolder width prevLine True
            = Inr (concat (map (\<lambda>k. folder_line (bUseAscii g) width prevLine arrFolder k
                                      # below ! k) [0..<length arrFolder]))" and
    each: "\<forall>k < length arrFolder.
              GetDirectoryStructure depth sys g (strPath @ [0x5C] @ cFileName (arrFolder ! k))
                (uint_add4 width) (folder_line (bUseAscii g) width prevLine arrFolder k)
                = Inr (below ! k)"
    by blast
  from fits fuel obtain d where d: "depth = Suc d"
    by (cases depth) (simp_all add: MAX_PATH_def)
  from each index leaf[of d "uint_add4 width" "folder_line (bUseAscii g) width prevLine arrFolder i"]
  have "below ! i = []" by (simp add: d)
  with len run each leaf closed show ?thesis
    by (intro exI[of _ below]) simp
qed

theorem unreadable_folder_is_leaf_witness:
  "(\<forall>pattern. list_all (\<lambda>d. length (cFileName d) < MAX_PATH) (FindFiles locked_os pattern))
   \<and> (\<forall>pattern. length pattern < MAX_PATH \<or> FindFiles locked_os pattern = [])
   \<and> called locked_os \<lparr>bShowFiles = False, bUseAscii = False, bSetPath = False\<rparr> (L ''t'')
        (L ''t'') 1 (replicate 10 0x20)
   \<and> FindFiles locked_os (L ''t'' @ [0x5C, 0x2A, 0x2E, 0x2A]) \<noteq> []
   \<and> list_all (\<lambda>d. length (cFileName d) < MAX_PATH) [folder ''p'', folder ''q'']
   \<and> MAX_PATH \<le> 260 + length (L ''t'')
   \<and> 0 < length [folder ''p'', folder ''q'']
   \<and> FindFiles locked_os (L ''t'' @ [0x5C] @ cFileName ([folder ''p'', folder ''q''] ! 0)
        @ [0x5C, 0x2A, 0x2E, 0x2A]) = []
   \<and> (\<exists>below.
         length below = length [folder ''p'', folder ''q''] \<and>
         below ! 0 = [] \<and>
         DrawTree 260 locked_os \<lparr>bShowFiles = False, bUseAscii = False, bSetPath = False\<rparr>
           (L ''t'') [folder ''p'', folder ''q''] 1 (replicate 10 0x20) True
         = Inr (concat (map (\<lambda>k. folder_line
                              (bUseAscii \<lparr>bShowFiles = False, bUseAscii = False, bSetPath = False\<rparr>)
                              1 (replicate 10 0x20) [folder ''p'', folder ''q''] k
                            # below ! k) [0..<length [folder ''p'', folder ''q'']])) \<and>
         (\<forall>k < length [folder ''p'', folder ''q''].
            GetDirectoryStructure 260 locked_os
              \<lparr>bShowFiles = False, bUseAscii = False, bSetPath = False\<rparr>
              (L ''t'' @ [0x5C] @ cFileName ([folder ''p'', folder ''q''] ! k)) (uint_add4 1)
              (folder_line
                 (bUseAscii \<lparr>bShowFiles = False, bUseAscii = False, bSetPath = False\<rparr>)
                 1 (replicate 10 0x20) [folder ''p'', folder ''q''] k)
            = Inr (below ! k)) \<and>
         (\<forall>enough width' prevLine'.
            GetDirectoryStructure (Suc enough) locked_os
              \<lparr>bShowFiles = False, bUseAscii = False, bSetPath = False\<rparr>
              (L ''t'' @ [0x5C] @ cFileName ([folder ''p'', folder ''q''] ! 0)) width' prevLine'
            = Inr []) \<and>
         collect (FindFiles locked_os (L ''t'' @ [0x5C]
                    @ cFileName ([folder ''p'', folder ''q''] ! 0) @ [0x5C, 0x2A, 0x2E, 0x2A]))
           [] [] = ([], []))
   \<and> DrawTree 260 locked_os \<lparr>bShowFiles = False, bUseAscii = False, bSetPath = False\<rparr>
        (L ''t'') [folder ''p'', folder ''q''] 1 (replicate 10 0x20) True
      = Inr [[0x251C, 0x2500, 0x2500, 0x2500, 0x70],
             [0x2514, 0x2500, 0x2500, 0x2500, 0x71],
             [0x20, 0x20, 0x20, 0x20, 0x2514, 0x2500, 0x2500, 0x2500, 0x72]]"
  (is "?names \<and> ?long \<and> ?call \<and> ?opened \<and> ?arr \<and> ?fuel \<and> ?index \<and> ?closed \<and> ?leaf \<and> ?run")
proof (intro conjI)
  show names: ?names
    by (rule locked_names)
  show long: ?long
    by (rule locked_long)
  show call: ?call
    by (rule from_wmain)
  show opened: ?opened
    by (simp add: locked_defs)
  show arr: ?arr
    by (simp add: folder_def L_def MAX_PATH_def)
  show fuel: ?fuel
    by (simp add: MAX_PATH_def)
  show index: ?index
    by simp
  show closed: ?closed
    by (simp add: locked_defs)
  show ?leaf
    by (rule unreadable_folder_is_leaf[OF names long call opened arr fuel index closed])
  have "DrawTree (Suc (Suc (Suc 0))) locked_os
          \<lparr>bShowFiles = False, bUseAscii = False, bSetPath = False\<rparr>
          (L ''t'') [folder ''p'', folder ''q''] 1 (replicate 10 0x20) True
        = Inr [[0x251C, 0x2500, 0x2500, 0x2500, 0x70],
               [0x2514, 0x2500, 0x2500, 0x2500, 0x71],
               [0x20, 0x20, 0x20, 0x20, 0x2514, 0x2500, 0x2500, 0x2500, 0x72]]"
    by (simp add: locked_defs run_defs)
  then show ?run
    by (rule DrawTree_more_depth) simp
qed

section \<open>The enumeration\<close>

text \<open>
  Claim C10.  The loop of \<^verbatim>\<open>GetDirectoryStructure\<close> puts every entry whose attributes lack
  the directory bit (bit 4, whatever the other bits, so hidden and system files too) among
  the files, and the entries with the bit other than \<^verbatim>\<open>.\<close> and \<^verbatim>\<open>..\<close> among the folders.  The
  call returns and prints, when \<^verbatim>\<open>bShowFiles\<close> is set, one line of file kind for each of
  these files (and the line of the appended entry), and in either case, for each of these
  folders, its line of folder kind followed by what the nested call on that folder prints:
  the nested calls are those on the folders, and no line of a file is followed by a
  listing.
\<close>

theorem children_sorted_by_directory_flag:
  assumes names: "\<forall>pattern. list_all (\<lambda>d. length (cFileName d) < MAX_PATH) (FindFiles sys pattern)"
    and long: "\<forall>pattern. length pattern < MAX_PATH \<or> FindFiles sys pattern = []"
    and call: "called sys g root strPath width prevLine"
    and found: "FindFiles sys (strPath @ [0x5C, 0x2A, 0x2E, 0x2A]) = found"
    and opened: "found \<noteq> []"
    and fuel: "MAX_PATH \<le> depth + length strPath"
    and files: "files = filter (\<lambda>d. \<not> bit (dwFileAttributes d) 4) found"
    and folders: "folders = filter (\<lambda>d. bit (dwFileAttributes d) 4
                                \<and> \<not> is_dot_or_dotdot (cFileName d)) found"
  shows "collect found [] [] = (folders, files) \<and>
         (\<exists>has below.
            HasSubFolder sys strPath = Inr has \<and> length below = length folders \<and>
            GetDirectoryStructure (Suc depth) sys g strPath width prevLine
              = Inr ((if bShowFiles g then
                        map (\<lambda>d. file_line (bUseAscii g) width prevLine has (cFileName d)) files
                        @ (if files = [] then []
                           else [file_line (bUseAscii g) width prevLine has [0x20]])
                      else [])
                     @ concat (map (\<lambda>i. folder_line (bUseAscii g) width prevLine folders i
                                         # below ! i) [0..<length folders])) \<and>
            (\<forall>i < length folders.
               GetDirectoryStructure depth sys g (strPath @ [0x5C] @ cFileName (folders ! i))
                 (uint_add4 width) (folder_line (bUseAscii g) width prevLine folders i)
               = Inr (below ! i)))"
proof
  show "collect found [] [] = (folders, files)"
    by (simp only: collect_filter is_directory_bit files folders append_Nil)
next
  from called_invariant[OF call] have w: "0 < width" "width - 1 \<le> length prevLine"
    by simp_all
  have n: "list_all (\<lambda>d. length (cFileName d) < MAX_PATH) (FindFiles sys pattern)" for pattern
    using names by simp
  have l: "length pattern < MAX_PATH \<or> FindFiles sys pattern = []" for pattern
    using long by simp
  have f: "files = filter (\<lambda>d. \<not> is_directory d) found"
    by (simp only: files is_directory_bit)
  have d: "folders = filter (\<lambda>d. is_directory d \<and> \<not> is_dot_or_dotdot (cFileName d)) found"
    by (simp only: folders is_directory_bit)
  show "\<exists>has below.
            HasSubFolder sys strPath = Inr has \<and> length below = length folders \<and>
            GetDirectoryStructure (Suc depth) sys g strPath width prevLine
              = Inr ((if bShowFiles g then
                        map (\<lambda>d. file_line (bUseAscii g) width prevLine has (cFileName d)) files
                        @ (if files = [] then []
                           else [file_line (bUseAscii g) width prevLine has [0x20]])
                      else [])
                     @ concat (map (\<lambda>i. folder_line (bUseAscii g) width prevLine folders i
                                         # below ! i) [0..<length folders])) \<and>
            (\<forall>i < length folders.
               GetDirectoryStructure depth sys g (strPath @ [0x5C] @ cFileName (folders ! i))
                 (uint_add4 width) (folder_line (bUseAscii g) width prevLine folders i)
               = Inr (below ! i))"
    by (rule GetDirectoryStructure_level[of sys strPath found width prevLine depth files folders g,
          OF n l found opened w(1) called_bounds[OF call] w(2) fuel f d])
qed

theorem children_sorted_by_directory_flag_witness:
  "(\<forall>pattern. list_all (\<lambda>d. length (cFileName d) < MAX_PATH) (FindFiles example_os pattern))
   \<and> (\<forall>pattern. length pattern < MAX_PATH \<or> FindFiles example_os pattern = [])
   \<and> called example_os \<lparr>bShowFiles = True, bUseAscii = True, bSetPath = False\<rparr> (L ''t'')
        (L ''t'') 1 (replicate 10 0x20)
   \<and> FindFiles example_os (L ''t'' @ [0x5C, 0x2A, 0x2E, 0x2A]) =
       [folder ''.'', folder ''..'', folder ''a'', plain_file ''f.txt'',
        hidden_system_file ''h'', folder ''b'']
   \<and> [folder ''.'', folder ''..'', folder ''a'', plain_file ''f.txt'',
        hidden_system_file ''h'', folder ''b''] \<noteq> []
   \<and> MAX_PATH \<le> 260 + length (L ''t'')
   \<and> [plain_file ''f.txt'', hidden_system_file ''h'']
        = filter (\<lambda>d. \<not> bit (dwFileAttributes d) 4)
            [folder ''.'', folder ''..'', folder ''a'', plain_file ''f.txt'',
             hidden_system_file ''h'', folder ''b'']
   \<and> [folder ''a'', folder ''b'']
        = filter (\<lambda>d. bit (dwFileAttributes d) 4 \<and> \<not> is_dot_or_dotdot (cFileName d))
            [folder ''.'', folder ''..'', folder ''a'', plain_file ''f.txt'',
             hidden_system_file ''h'', folder ''b'']
   \<and> (collect [folder ''.'', folder ''..'', folder ''a'', plain_file ''f.txt'',
                hidden_system_file ''h'', folder ''b''] [] []
         = ([folder ''a'', folder ''b''], [plain_file ''f.txt'', hidden_system_file ''h'']) \<and>
       (\<exists>has below.
          HasSubFolder example_os (L ''t'') = Inr has \<and>
          length below = length [folder ''a'', folder ''b''] \<and>
          GetDirectoryStructure (Suc 260) example_os
            \<lparr>bShowFiles = True, bUseAscii = True, bSetPath = False\<rparr> (L ''t'') 1
            (replicate 10 0x20)
          = Inr ((if bShowFiles \<lparr>bShowFiles = True, bUseAscii = True, bSetPath = False\<rparr> then
                    map (\<lambda>d. file_line
                          (bUseAscii \<lparr>bShowFiles = True, bUseAscii = True, bSetPath = False\<rparr>)
                          1 (replicate 10 0x20) has (cFileName d))
                      [plain_file ''f.txt'', hidden_system_file ''h'']
                    @ (if [plain_file ''f.txt'', hidden_system_file ''h''] = [] then []
                       else [file_line
                               (bUseAscii \<lparr>bShowFiles = True, bUseAscii = True, bSetPath = False\<rparr>)
                               1 (replicate 10 0x20) has [0x20]])
                  else [])
                 @ concat (map (\<lambda>i. folder_line
                                  (bUseAscii \<lparr>bShowFiles = True, bUseAscii = True, bSetPath = False\<rparr>)
                                  1 (replicate 10 0x20) [folder ''a'', folder ''b''] i
                                # below ! i) [0..<length [folder ''a'', folder ''b'']])) \<and>
          (\<forall>i < length [folder ''a'', folder ''b''].
             GetDirectoryStructure 260 example_os
               \<lparr>bShowFiles = True, bUseAscii = True, bSetPath = False\<rparr>
               (L ''t'' @ [0x5C] @ cFileName ([folder ''a'', folder ''b''] ! i)) (uint_add4 1)
               (folder_line
                  (bUseAscii \<lparr>bShowFiles = True, bUseAscii = True, bSetPath = False\<rparr>)
                  1 (replicate 10 0x20) [folder ''a'', folder ''b''] i)
             = Inr (below ! i))))
   \<and> GetDirectoryStructure (Suc 260) example_os
        \<lparr>bShowFiles = True, bUseAscii = True, bSetPath = False\<rparr> (L ''t'') 1
        (replicate 10 0x20)
      = Inr [[0x7C, 0x20, 0x20, 0x20, 0x66, 0x2E, 0x74, 0x78, 0x74],
             [0x7C, 0x20, 0x20, 0x20, 0x68],
             [0x7C, 0x20, 0x20, 0x20, 0x20],
             [0x2B, 0x2D, 0x2D, 0x2D, 0x61],
             [0x7C, 0x20, 0x20, 0x20, 0x5C, 0x2D, 0x2D, 0x2D, 0x78],
             [0x5C, 0x2D, 0x2D, 0x2D, 0x62]]
   \<and> GetDirectoryStructure (Suc 260) example_os
        \<lparr>bShowFiles = False, bUseAscii = True, bSetPath = False\<rparr> (L ''t'') 1
        (replicate 10 0x20)
      = Inr [[0x2B, 0x2D, 0x2D, 0x2D, 0x61],
             [0x7C, 0x20, 0x20, 0x20, 0x5C, 0x2D, 0x2D, 0x2D, 0x78],
             [0x5C, 0x2D, 0x2D, 0x2D, 0x62]]"
  (is "?names \<and> ?long \<and> ?call \<and> ?found \<and> ?opened \<and> ?fuel \<and> ?files \<and> ?folders
        \<and> (?sorted \<and> ?level) \<and> ?shown \<and> ?hidden")
proof (intro conjI)
  show names: ?names
    by (rule example_names)
  show long: ?long
    by (rule example_long)
  show call: ?call
    by (rule from_wmain)
  show found: ?found
    by (rule example_listing)
  show opened: ?opened
    by simp
  show fuel: ?fuel
    by (simp add: MAX_PATH_def)
  show files: ?files
    by (simp add: folder_def plain_file_def hidden_system_file_def)
  show folders: ?folders
    by (simp add: folder_def plain_file_def hidden_system_file_def is_dot_or_dotdot_def L_def)
  show ?sorted
    by (rule children_sorted_by_directory_flag
          [OF names long call found opened fuel files folders, THEN conjunct1])
  show ?level
    by (rule children_sorted_by_directory_flag
          [OF names long call found opened fuel files folders, THEN conjunct2])
  have "GetDirectoryStructure (Suc (Suc (Suc 0))) example_os
          \<lparr>bShowFiles = True, bUseAscii = True, bSetPath = False\<rparr> (L ''t'') 1
          (replicate 10 0x20)
        = Inr [[0x7C, 0x20, 0x20, 0x20, 0x66, 0x2E, 0x74, 0x78, 0x74],
               [0x7C, 0x20, 0x20, 0x20, 0x68],
               [0x7C, 0x20, 0x20, 0x20, 0x20],
               [0x2B, 0x2D, 0x2D, 0x2D, 0x61],
               [0x7C, 0x20, 0x20, 0x20, 0x5C, 0x2D, 0x2D, 0x2D, 0x78],
               [0x5C, 0x2D, 0x2D, 0x2D, 0x62]]"
    by (simp add: example_defs run_defs)
  then show ?shown
    by (rule GetDirectoryStructure_more_depth) simp
  have "GetDirectoryStructure (Suc (Suc (Suc 0))) example_os
          \<lparr>bShowFiles = False, bUseAscii = True, bSetPath = False\<rparr> (L ''t'') 1
          (replicate 10 0x20)
        = Inr [[0x2B, 0x2D, 0x2D, 0x2D, 0x61],
               [0x7C, 0x20, 0x20, 0x20, 0x5C, 0x2D, 0x2D, 0x2D, 0x78],
               [0x5C, 0x2D, 0x2D, 0x2D, 0x62]]"
    by (simp add: example_defs run_defs)
  then show ?hidden
    by (rule GetDirectoryStructure_more_depth) simp
qed

section \<open>The probe\<close>

text \<open>
  When the search for \<^verbatim>\<open>*.\<close> in the directory succeeds, \<^verbatim>\<open>HasSubFolder\<close> returns true exactly
  when one of the entries found has the directory bit and is not \<^verbatim>\<open>.\<close> or \<^verbatim>\<open>..\<close>.
\<close>

theorem HasSubFolder_opened:
  assumes "FindFiles sys (strPath @ [0x5C, 0x2A, 0x2E]) \<noteq> []" and "length strPath + 3 < STR_MAX"
  shows "HasSubFolder sys strPath =
           Inr (list_ex (\<lambda>d. is_directory d \<and> \<not> is_dot_or_dotdot (cFileName d))
                  (FindFiles sys (strPath @ [0x5C, 0x2A, 0x2E])))"
proof -
  have "HasSubFolder_loop found
          = list_ex (\<lambda>d. is_directory d \<and> \<not> is_dot_or_dotdot (cFileName d)) found" for found
    by (induction found) simp_all
  with assms show ?thesis
    by (simp add: HasSubFolder_def wcscat_s_def split: list.splits)
qed

theorem HasSubFolder_opened_witness:
  "FindFiles example_os (L ''t'' @ [0x5C, 0x2A, 0x2E]) \<noteq> []
   \<and> length (L ''t'') + 3 < STR_MAX
   \<and> HasSubFolder example_os (L ''t'') =
         Inr (list_ex (\<lambda>d. is_directory d \<and> \<not> is_dot_or_dotdot (cFileName d))
                (FindFiles example_os (L ''t'' @ [0x5C, 0x2A, 0x2E])))
   \<and> HasSubFolder example_os (L ''t'') = Inr True"
  (is "?found \<and> ?fits \<and> ?probe \<and> ?printed")
proof (intro conjI)
  show found: ?found
    by (simp add: example_defs)
  show fits: ?fits
    by (simp add: L_def STR_MAX_def)
  show ?probe
    by (rule HasSubFolder_opened[OF found fits])
  show ?printed
    by (simp add: example_defs run_defs)
qed

text \<open>
  Claim C5.  For a search that succeeds the claim holds, as above.  When the search fails,
  the function does not return false as the claim says: the handle is not tested, the
  loop body runs on the uninitialised \<^verbatim>\<open>FindFileData\<close> (lemma \<open>HasSubFolder_failed\<close>), and
  the function returns true here.
\<close>

theorem HasSubFolder_failed_search_returns_true:
  "FindFiles stale_os (L ''D:'' @ [0x5C] @ [0x5C, 0x2A, 0x2E]) = []
   \<and> HasSubFolder stale_os (L ''D:'' @ [0x5C]) = Inr True"
  by (simp add: stale_os_def L_def HasSubFolder_def wcscat_s_def STR_MAX_def is_directory_def
        is_dot_or_dotdot_def FILE_ATTRIBUTE_DIRECTORY_def)

section \<open>The command line\<close>

text \<open>
  Claim C8, as the program has it.  A second argument that is not a switch, with no help
  switch before it, ends the program with status 0: the error stream names the argument
  after \<^verbatim>\<open>Too many parameters - \<close>, and nothing is written to the standard output, so no
  directory is listed.  A switch other than \<^verbatim>\<open>?\<close>, \<^verbatim>\<open>F\<close> and \<^verbatim>\<open>A\<close> is passed over.
\<close>

theorem second_path_is_reported:
  assumes "list_all (\<lambda>a. \<not> is_help a) before"
    and "length (filter (\<lambda>a. \<not> is_switch a) before) = 1"
    and "\<not> is_switch arg"
  shows "wmain depth sys (program # before @ arg # after) =
           Inr \<lparr>exit_status = 0, stdout = [],
                stderr = [L ''Too many parameters - '' @ arg, []]\<rparr>"
proof -
  from assms(2) have "length (filter (\<lambda>a. \<not> is_switch a) before)
      + (if bSetPath initial_globals then 1 else 0) \<le> 1"
    by (simp add: initial_globals_def)
  from parse_command_line_accepts[OF assms(1) this, of sys "[]"] assms(2) obtain g' p' where
    "parse_command_line sys before initial_globals [] = Inr (g', p')" and "bSetPath g'"
    by auto
  with assms(3) show ?thesis
    by (simp add: wmain_def parse_command_line_append is_switch_def)
qed

theorem second_path_is_reported_witness:
  "list_all (\<lambda>a. \<not> is_help a) [[0x2F, 0x46], L ''t'']
   \<and> length (filter (\<lambda>a. \<not> is_switch a) [[0x2F, 0x46], L ''t'']) = 1
   \<and> \<not> is_switch (L ''q'')
   \<and> wmain 0 example_os (L ''tree'' # [[0x2F, 0x46], L ''t''] @ L ''q'' # []) =
           Inr \<lparr>exit_status = 0, stdout = [],
                stderr = [L ''Too many parameters - '' @ L ''q'', []]\<rparr>"
  (is "?nohelp \<and> ?one \<and> ?positional \<and> ?reported")
proof (intro conjI)
  show nohelp: ?nohelp
    by (simp add: is_help_def is_switch_def arg_char_def towlower_def L_def)
  show one: ?one
    by (simp add: is_switch_def arg_char_def L_def)
  show positional: ?positional
    by (simp add: is_switch_def arg_char_def L_def)
  show ?reported
    by (rule second_path_is_reported[OF nohelp one positional])
qed

text \<open>
  The claim as stated fails for the unsupported switch \<^verbatim>\<open>/x\<close>: nothing is reported and the
  tree is listed.
\<close>

theorem unknown_switch_is_ignored:
  "wmain (Suc (Suc (Suc 0))) example_os [L ''tree'', [0x2F, 0x78]] =
     Inr \<lparr>exit_status = 0,
          stdout =
            [L ''Folder PATH listing for volume OS'',
             L ''Volume serial number is 1234-ABCD'',
             L ''C:.'',
             [0x251C, 0x2500, 0x2500, 0x2500, 0x61],
             [0x2502, 0x20, 0x20, 0x20, 0x2514, 0x2500, 0x2500, 0x2500, 0x78],
             [0x2514, 0x2500, 0x2500, 0x2500, 0x62]],
          stderr = []\<rparr>"
  by (simp add: example_defs run_defs wmain_def list_directory_def initial_globals_def
        arg_char_def towlower_def banner_def hex_digit_def)

section \<open>ASCII mode\<close>

text \<open>
  Claim C9, as the program has it.  When no name that a search returns holds one of the
  four box characters, the listing that \<^verbatim>\<open>wmain\<close> starts prints in ASCII mode what it prints
  otherwise with the branch glyph replaced by \<^verbatim>\<open>+\<close>, the horizontal bar by \<^verbatim>\<open>-\<close>, the corner
  glyph by \<^verbatim>\<open>\\<close> and the vertical bar by \<^verbatim>\<open>|\<close>; a run that ends early ends the same way in
  both modes.  This holds for either setting of \<^verbatim>\<open>bShowFiles\<close>.
\<close>

theorem ascii_output_is_substituted_output:
  assumes "\<forall>pattern. list_all (\<lambda>d. no_box_characters (cFileName d)) (FindFiles sys pattern)"
  shows "GetDirectoryStructure depth sys (g\<lparr>bUseAscii := True\<rparr>) strPath 1 (replicate 10 0x20)
         = substituted (GetDirectoryStructure depth sys (g\<lparr>bUseAscii := False\<rparr>) strPath 1
             (replicate 10 0x20))"
proof -
  have "map to_ascii (replicate 10 0x20) = replicate 10 0x20"
    by (simp add: to_ascii_def)
  with GetDirectoryStructure_to_ascii[of sys depth g strPath 1 "replicate 10 0x20"] assms
  show ?thesis by simp
qed

theorem ascii_output_is_substituted_output_witness:
  "(\<forall>pattern. list_all (\<lambda>d. no_box_characters (cFileName d)) (FindFiles example_os pattern))
   \<and> GetDirectoryStructure (Suc (Suc (Suc 0))) example_os
       (\<lparr>bShowFiles = True, bUseAscii = False, bSetPath = False\<rparr>\<lparr>bUseAscii := True\<rparr>)
       (L ''t'') 1 (replicate 10 0x20)
     = substituted (GetDirectoryStructure (Suc (Suc (Suc 0))) example_os
         (\<lparr>bShowFiles = True, bUseAscii = False, bSetPath = False\<rparr>\<lparr>bUseAscii := False\<rparr>)
         (L ''t'') 1 (replicate 10 0x20))
   \<and> GetDirectoryStructure (Suc (Suc (Suc 0))) example_os
       (\<lparr>bShowFiles = True, bUseAscii = False, bSetPath = False\<rparr>\<lparr>bUseAscii := True\<rparr>)
       (L ''t'') 1 (replicate 10 0x20)
     = Inr [[0x7C, 0x20, 0x20, 0x20, 0x66, 0x2E, 0x74, 0x78, 0x74],
            [0x7C, 0x20, 0x20, 0x20, 0x68],
            [0x7C, 0x20, 0x20, 0x20, 0x20],
            [0x2B, 0x2D, 0x2D, 0x2D, 0x61],
            [0x7C, 0x20, 0x20, 0x20, 0x5C, 0x2D, 0x2D, 0x2D, 0x78],
            [0x5C, 0x2D, 0x2D, 0x2D, 0x62]]"
  (is "?names \<and> ?same \<and> ?printed")
proof (intro conjI)
  show names: ?names
    by (simp add: example_no_box)
  show ?same
    by (rule ascii_output_is_substituted_output[OF names])
  show ?printed
    by (simp add: example_defs run_defs)
qed

text \<open>
  The claim as stated fails when a name holds a box character: the name is printed as it
  is in both modes, so the substitution changes a character that ASCII mode keeps.
\<close>

theorem box_character_in_name_not_substituted:
  "GetDirectoryStructure (Suc (Suc 0)) box_os
     \<lparr>bShowFiles = False, bUseAscii = True, bSetPath = False\<rparr> (L ''t'') 1 (replicate 10 0x20)
     = Inr [[0x5C, 0x2D, 0x2D, 0x2D, 0x2500]]
   \<and> substituted (GetDirectoryStructure (Suc (Suc 0)) box_os
       \<lparr>bShowFiles = False, bUseAscii = False, bSetPath = False\<rparr> (L ''t'') 1
       (replicate 10 0x20))
     = Inr [[0x5C, 0x2D, 0x2D, 0x2D, 0x2D]]"
  by (simp add: box_os_def L_def run_defs substituted_def to_ascii_def)

section \<open>The indentation\<close>

text \<open>
  Claim C2.  In every call of a run, the line of every entry, of either kind, begins with
  \<^verbatim>\<open>width - 1\<close> columns of indentation; column \<open>j\<close> holds the vertical bar (\<^verbatim>\<open>|\<close> in ASCII
  mode) when column \<open>j\<close> of the previous line, the line of the folder being listed, is one
  of the branch glyph, the vertical bar, \<^verbatim>\<open>+\<close> and \<^verbatim>\<open>|\<close>, and a blank otherwise.  (The test in
  the code looks at the low byte only where it compares with \<^verbatim>\<open>+\<close> and \<^verbatim>\<open>|\<close>; the columns
  it reads hold indentation and connectors, never a name, so this makes no difference.
  By lemma \<open>printed_lines_come_from_calls\<close> every line of the listing is such a line.)
\<close>

theorem indentation_follows_previous_line:
  assumes "called sys g root strPath width prevLine"
    and "consoleOut_of g arr width prevLine drawfolder has i = Inr line"
  shows "\<exists>indent.
           line = indent @ connector (bUseAscii g) drawfolder has (length arr - 1 \<noteq> i)
                             (cFileName (arr ! i)) \<and>
           length indent = width - 1 \<and>
           (\<forall>j < width - 1.
              indent ! j =
                (if prevLine ! j \<in> {0x251C, 0x2502, 0x2B, 0x7C}
                 then (if bUseAscii g then 0x7C else 0x2502)
                 else 0x20))"
proof -
  from called_invariant[OF assms(1)] have w: "0 < width" and len: "width - 1 \<le> length prevLine"
    and drawn: "\<forall>j < width - 1. prevLine ! j \<in> drawn_characters"
    by simp_all
  from w have up: "uint_pred width = width - 1" by (simp add: uint_pred_def)
  let ?ind = "indentation (bUseAscii g) width prevLine"
  have "?ind ! j = (if prevLine ! j \<in> {0x251C, 0x2502, 0x2B, 0x7C}
                 then (if bUseAscii g then 0x7C else 0x2502)
                 else 0x20)" if "j < width - 1" for j
  proof -
    from that len have "column prevLine j = prevLine ! j" by (simp add: column_def)
    with that up have "?ind ! j = cell (bUseAscii g) (prevLine ! j)"
      by (simp add: indentation_def)
    with drawn that drawn_continuation[of "prevLine ! j"] show ?thesis
      by (simp add: cell_def)
  qed
  with consoleOut_of_Inr(1)[OF assms(2)] length_indentation[of "bUseAscii g" width prevLine] up
  show ?thesis by (intro exI[of _ ?ind]) simp
qed

theorem indentation_follows_previous_line_witness:
  "called example_os \<lparr>bShowFiles = False, bUseAscii = False, bSetPath = False\<rparr> (L ''t'')
     (L ''t'' @ [0x5C] @ L ''a'') 5 [0x251C, 0x2500, 0x2500, 0x2500, 0x61]
   \<and> consoleOut_of \<lparr>bShowFiles = False, bUseAscii = False, bSetPath = False\<rparr> [folder ''x''] 5
       [0x251C, 0x2500, 0x2500, 0x2500, 0x61] True True 0
     = Inr [0x2502, 0x20, 0x20, 0x20, 0x2514, 0x2500, 0x2500, 0x2500, 0x78]
   \<and> (\<exists>indent.
         [0x2502, 0x20, 0x20, 0x20, 0x2514, 0x2500, 0x2500, 0x2500, 0x78]
           = indent @ connector
                        (bUseAscii \<lparr>bShowFiles = False, bUseAscii = False, bSetPath = False\<rparr>)
                        True True (length [folder ''x''] - 1 \<noteq> 0)
                        (cFileName ([folder ''x''] ! 0)) \<and>
         length indent = 5 - 1 \<and>
         (\<forall>j < 5 - 1.
            indent ! j =
              (if ([0x251C, 0x2500, 0x2500, 0x2500, 0x61] :: wstring) ! j \<in> {0x251C, 0x2502, 0x2B, 0x7C}
               then (if bUseAscii \<lparr>bShowFiles = False, bUseAscii = False, bSetPath = False\<rparr>
                     then 0x7C else 0x2502)
               else 0x20)))"
  (is "?call \<and> ?line \<and> ?indented")
proof (intro conjI)
  show call: ?call
    by (rule example_call)
  show line: ?line
    by (simp add: example_defs run_defs)
  show ?indented
    by (rule indentation_follows_previous_line[OF call line])
qed

end
